theory Spec2Isabelle
  imports Complex_Main "HOL-Library.AList"
begin

section \<open>Strings\<close>

text \<open>
  A Python \<^verbatim>\<open>str\<close> is a sequence of code points. What \<^verbatim>\<open>str.split\<close>,
  \<^verbatim>\<open>str.isalpha\<close>, \<^verbatim>\<open>str.isupper\<close>, \<^verbatim>\<open>str.islower\<close> and \<^verbatim>\<open>str.lower\<close> do
  is decided by the tables of the interpreter's Unicode database, which are not part of
  the module. They are a parameter of the model, over any type of characters: for a
  character, whether it is whitespace, a letter, uppercase, lowercase or titlecase (a
  letter may be none of the three: most letters have no case); for a string, its
  lowercase form (which need not have the same length).
\<close>

record 'c unicode =
  u_isspace :: "'c \<Rightarrow> bool"
  u_isalpha :: "'c \<Rightarrow> bool"
  u_isupper :: "'c \<Rightarrow> bool"
  u_islower :: "'c \<Rightarrow> bool"
  u_istitle :: "'c \<Rightarrow> bool"
  u_lower :: "'c list \<Rightarrow> 'c list"

text \<open>\<^verbatim>\<open>str.isalpha\<close>: every character is a letter and there is at least one.\<close>

definition str_isalpha :: "'c unicode \<Rightarrow> 'c list \<Rightarrow> bool" where
  "str_isalpha U w = (w \<noteq> [] \<and> list_all (u_isalpha U) w)"

text \<open>
  \<^verbatim>\<open>str.isupper\<close>: no character is lowercase or titlecase and at least one is
  uppercase; \<^verbatim>\<open>str.islower\<close>: no character is uppercase or titlecase and at least one
  is lowercase.
\<close>

definition str_isupper :: "'c unicode \<Rightarrow> 'c list \<Rightarrow> bool" where
  "str_isupper U w =
     (list_all (\<lambda>c. \<not> u_islower U c \<and> \<not> u_istitle U c) w \<and> list_ex (u_isupper U) w)"

definition str_islower :: "'c unicode \<Rightarrow> 'c list \<Rightarrow> bool" where
  "str_islower U w =
     (list_all (\<lambda>c. \<not> u_isupper U c \<and> \<not> u_istitle U c) w \<and> list_ex (u_islower U) w)"

definition str_lower :: "'c unicode \<Rightarrow> 'c list \<Rightarrow> 'c list" where
  "str_lower U w = u_lower U w"

text \<open>
  \<^verbatim>\<open>str.split()\<close> without a separator: the maximal runs of characters that are not
  whitespace, in order. The second argument is the run read so far.
\<close>

fun split_run :: "'c unicode \<Rightarrow> 'c list \<Rightarrow> 'c list \<Rightarrow> 'c list list" where
  "split_run U cur [] = (if cur = [] then [] else [cur])"
| "split_run U cur (c # cs) =
     (if u_isspace U c
      then (if cur = [] then split_run U [] cs else cur # split_run U [] cs)
      else split_run U (cur @ [c]) cs)"

definition str_split :: "'c unicode \<Rightarrow> 'c list \<Rightarrow> 'c list list" where
  "str_split U s = split_run U [] s"

subsection \<open>The tables on 8-bit strings\<close>

text \<open>
  The module apart from the compiler is run on strings of HOL's \<^typ>\<open>char\<close>, a char
  standing for the code point of the same number, 0 to 255. The tables \<open>latin1\<close> are
  Python's on these code points (letters of Latin-1 included; 28 to 31, 133 and 160 are
  whitespace): there every letter is uppercase or lowercase, none is titlecase, and
  \<^verbatim>\<open>str.lower\<close> works character by character.
\<close>

definition isspace_char :: "char \<Rightarrow> bool" where
  "isspace_char c =
     (let n = (of_char c :: nat)
      in (9 \<le> n \<and> n \<le> 13) \<or> (28 \<le> n \<and> n \<le> 32) \<or> n = 133 \<or> n = 160)"

definition isupper_char :: "char \<Rightarrow> bool" where
  "isupper_char c =
     (let n = (of_char c :: nat)
      in (65 \<le> n \<and> n \<le> 90) \<or> (192 \<le> n \<and> n \<le> 214) \<or> (216 \<le> n \<and> n \<le> 222))"

definition islower_char :: "char \<Rightarrow> bool" where
  "islower_char c =
     (let n = (of_char c :: nat)
      in (97 \<le> n \<and> n \<le> 122) \<or> n = 170 \<or> n = 181 \<or> n = 186
         \<or> (223 \<le> n \<and> n \<le> 246) \<or> (248 \<le> n \<and> n \<le> 255))"

definition isalpha_char :: "char \<Rightarrow> bool" where
  "isalpha_char c = (isupper_char c \<or> islower_char c)"

definition lower_char :: "char \<Rightarrow> char" where
  "lower_char c = (if isupper_char c then char_of (of_char c + (32 :: nat)) else c)"

definition latin1 :: "char unicode" where
  "latin1 =
     \<lparr>u_isspace = isspace_char, u_isalpha = isalpha_char, u_isupper = isupper_char,
      u_islower = islower_char, u_istitle = (\<lambda>c. False), u_lower = map lower_char\<rparr>"

subsection \<open>Tables with letters that have no case\<close>

text \<open>
  Code points as integers, with Python's tables on the code points 0 to 255 and
  on the ideographs U+4E00 to U+9FA5 (19968 to 40869), which are letters and neither
  uppercase, lowercase nor titlecase. The other code points are left without a class:
  these tables are for running the compiler on text of the code points named.
\<close>

definition latin1_code :: "int \<Rightarrow> bool" where
  "latin1_code n = (0 \<le> n \<and> n < 256)"

definition codepoints :: "int unicode" where
  "codepoints =
     \<lparr>u_isspace = (\<lambda>n. latin1_code n \<and> isspace_char (char_of n)),
      u_isalpha = (\<lambda>n. (latin1_code n \<and> isalpha_char (char_of n)) \<or> (19968 \<le> n \<and> n \<le> 40869)),
      u_isupper = (\<lambda>n. latin1_code n \<and> isupper_char (char_of n)),
      u_islower = (\<lambda>n. latin1_code n \<and> islower_char (char_of n)),
      u_istitle = (\<lambda>n. False),
      u_lower = map (\<lambda>n. if latin1_code n then of_char (lower_char (char_of n)) else n)\<rparr>"

text \<open>The code points of a string of 8-bit characters.\<close>

definition codes :: "string \<Rightarrow> int list" where
  "codes s = map of_char s"

text \<open>
  A template with a letter that has no case: the ideograph U+53D6 (21462), a space and
  the word \<open>ITEM\<close>.
\<close>

definition uncased_template :: "int list" where
  "uncased_template = 21462 # codes '' ITEM''"

text \<open>\<^verbatim>\<open>' '.join(ws)\<close>\<close>

fun str_join :: "string list \<Rightarrow> string" where
  "str_join [] = []"
| "str_join [w] = w"
| "str_join (w # v # ws) = w @ '' '' @ str_join (v # ws)"

section \<open>Dictionaries\<close>

text \<open>
  A Python dict keeps its keys in insertion order and assigning to a key that is present
  replaces the value in place: an association list under \<^const>\<open>AList.update\<close>.
  \<^verbatim>\<open>d.update(other)\<close> assigns the items of \<^verbatim>\<open>other\<close> from first to last.
\<close>

type_synonym ('k, 'v) dict = "('k \<times> 'v) list"

definition dict_update :: "('k, 'v) dict \<Rightarrow> ('k, 'v) dict \<Rightarrow> ('k, 'v) dict" where
  "dict_update d other = fold (\<lambda>(k, v) acc. AList.update k v acc) other d"

section \<open>Errors\<close>

text \<open>
  \<^verbatim>\<open>InvalidCommand\<close> is raised at three places, told apart by their message; the
  string is the command template the message quotes. \<^verbatim>\<open>RecursionError\<close> stands for
  a call of the allocator that recurses without bound.
\<close>

datatype fault = LettersOnly | MixedCase | WrongSignature

datatype 'c error = InvalidCommand fault "'c list" | InvalidContext | RecursionError

section \<open>Context\<close>

text \<open>The module global \<^verbatim>\<open>current_context\<close>; \<open>None\<close> is Python's \<^verbatim>\<open>None\<close>.\<close>

definition set_context :: "string \<Rightarrow> string option" where
  "set_context new_context =
     (if new_context \<noteq> ''default'' then Some (''default.'' @ new_context)
      else Some new_context)"

section \<open>The allocator\<close>

text \<open>
  \<^verbatim>\<open>Pattern.word_combinations\<close> is a generator; the model is the list of the tuples
  it yields, in order. With \<^verbatim>\<open>placeholders < 1\<close> and \<^verbatim>\<open>have > placeholders\<close> the
  last round of the \<^verbatim>\<open>while\<close> loop (\<^verbatim>\<open>take = 1\<close>) calls the generator with both
  arguments one smaller, so the generator never finishes: \<open>None\<close>.
\<close>

function word_combinations :: "int \<Rightarrow> int \<Rightarrow> int list list option" where
  "word_combinations have placeholders =
     (if have < placeholders then Some []
      else if have = placeholders then Some [replicate (nat placeholders) 1]
      else if placeholders = 1 then Some [[have]]
      else if placeholders < 1 then None
      else
        (let other_groups = placeholders - 1;
             take0 = have - other_groups
         in map_option concat (those (map
              (\<lambda>take.
                 let remain = have - take
                 in if have \<ge> placeholders - 1
                    then map_option (map (\<lambda>buckets. take # buckets))
                           (word_combinations remain other_groups)
                    else Some [])
              (rev [1..take0])))))"
  by pat_completeness auto
termination
  by (relation "measure (\<lambda>(h, p). nat p)") auto

declare word_combinations.simps [simp del]

section \<open>Patterns\<close>

datatype 'c token = Placeholder "'c list" | Word "'c list"

record 'c Pattern =
  orig_pattern :: "'c list"
  pattern_context :: "'c list option"
  placeholders :: int
  argnames :: "'c list list"
  prefix :: "'c list list"
  pattern :: "'c token list"
  fixed :: int

text \<open>
  The first loop of \<^verbatim>\<open>Pattern.__init__\<close>, over the words of the template, with the
  lists \<^verbatim>\<open>match\<close> (here \<open>tokens\<close>) and \<^verbatim>\<open>argnames\<close> (here \<open>names\<close>) and the
  counter \<^verbatim>\<open>self.placeholders\<close> it builds.
\<close>

fun init_words ::
  "'c unicode \<Rightarrow> 'c list \<Rightarrow> 'c list list \<Rightarrow> 'c token list \<Rightarrow> 'c list list \<Rightarrow> int
   \<Rightarrow> 'c error + ('c token list \<times> 'c list list \<times> int)" where
  "init_words U pat [] tokens names n = Inr (tokens, names, n)"
| "init_words U pat (w # words) tokens names n =
     (if \<not> str_isalpha U w then Inl (InvalidCommand LettersOnly pat)
      else if str_isupper U w then
        (let arg = str_lower U w
         in init_words U pat words (tokens @ [Placeholder arg]) (names @ [arg]) (n + 1))
      else if str_islower U w then init_words U pat words (tokens @ [Word w]) names n
      else Inl (InvalidCommand MixedCase pat))"

text \<open>The second loop: the words of \<^verbatim>\<open>match\<close> before the first placeholder.\<close>

fun leading_words :: "'c token list \<Rightarrow> 'c list list" where
  "leading_words [] = []"
| "leading_words (Placeholder a # ts) = []"
| "leading_words (Word w # ts) = w # leading_words ts"

definition Pattern_init ::
  "'c unicode \<Rightarrow> 'c list \<Rightarrow> 'c list option \<Rightarrow> 'c error + 'c Pattern" where
  "Pattern_init U pat context =
     (case init_words U pat (str_split U pat) [] [] 0 of
        Inl e \<Rightarrow> Inl e
      | Inr (tokens, names, n) \<Rightarrow>
          (let pre = leading_words tokens;
               rest = drop (length pre) tokens
           in Inr \<lparr>orig_pattern = pat, pattern_context = context, placeholders = n,
                   argnames = names, prefix = pre, pattern = rest,
                   fixed = int (length rest) - n\<rparr>))"

subsection \<open>Activity under the current context\<close>

definition is_active :: "string option \<Rightarrow> char Pattern \<Rightarrow> char error + bool" where
  "is_active cur_context p =
     (case cur_context of
        None \<Rightarrow> Inl InvalidContext
      | Some cur \<Rightarrow>
          (case pattern_context p of
             None \<Rightarrow> Inr False
           | Some c \<Rightarrow>
               (let context = (if c \<noteq> ''default'' then ''default.'' @ c else c)
                in if context = cur then Inr True
                   else
                     (let uppercontext = context @ ''.'';
                          context_len = length context + 1
                      in if uppercontext = take context_len cur then Inr True
                         else Inr False))))"

subsection \<open>Matching\<close>

text \<open>
  The body of the \<^verbatim>\<open>try\<close> in \<^verbatim>\<open>Pattern.match\<close> for one allocation: the iterators
  \<^verbatim>\<open>take\<close> (here \<open>takes\<close>) and \<^verbatim>\<open>inp\<close> are the lists of what they have still to
  give, and the
  outcome says how the body was left: by the \<^verbatim>\<open>return\<close> of the loop's
  \<^verbatim>\<open>else\<close>, by \<^verbatim>\<open>break\<close>, or by \<^verbatim>\<open>StopIteration\<close>.
\<close>

datatype outcome = Returned "(string, string list) dict" | Broke | StopIteration

fun match_combo ::
  "char token list \<Rightarrow> int list \<Rightarrow> string list \<Rightarrow> (string, string list) dict \<Rightarrow> outcome" where
  "match_combo [] takes inp matches = Returned matches"
| "match_combo (Placeholder name # cwords) takes inp matches =
     (case takes of
        [] \<Rightarrow> StopIteration
      | count # takes' \<Rightarrow>
          (if nat count \<le> length inp
           then match_combo cwords takes' (drop (nat count) inp)
                  (AList.update name (List.take (nat count) inp) matches)
           else StopIteration))"
| "match_combo (Word cword # cwords) takes inp matches =
     (case inp of
        [] \<Rightarrow> StopIteration
      | word # inp' \<Rightarrow>
          (if cword \<noteq> word then Broke else match_combo cwords takes inp' matches))"

fun match_combos ::
  "char token list \<Rightarrow> int list list \<Rightarrow> string list \<Rightarrow> (string, string) dict option" where
  "match_combos cwords [] input_words = None"
| "match_combos cwords (combo # combos) input_words =
     (case match_combo cwords combo input_words [] of
        Returned matches \<Rightarrow> Some (map (\<lambda>(k, v). (k, str_join v)) matches)
      | Broke \<Rightarrow> match_combos cwords combos input_words
      | StopIteration \<Rightarrow> match_combos cwords combos input_words)"

text \<open>
  \<^verbatim>\<open>Pattern.match\<close>: \<open>Inr None\<close> is the return value \<^verbatim>\<open>None\<close>. Where the
  allocator does not finish the model gives \<open>RecursionError\<close> at once (the source would
  first try the tuples yielded before the stack overflows); no pattern built by
  \<^verbatim>\<open>Pattern.__init__\<close> gets there.
\<close>

definition match ::
  "string option \<Rightarrow> char Pattern \<Rightarrow> string list \<Rightarrow> char error + (string, string) dict option" where
  "match cur_context p input_words =
     (case is_active cur_context p of
        Inl e \<Rightarrow> Inl e
      | Inr active \<Rightarrow>
          if \<not> active then Inr None
          else if length input_words < length (argnames p) then Inr None
          else if take (length (prefix p)) input_words \<noteq> prefix p then Inr None
          else
            (let input_words = drop (length (prefix p)) input_words
             in if input_words = [] \<and> pattern p = [] then Inr (Some [])
                else if (input_words \<noteq> []) \<noteq> (pattern p \<noteq> []) then Inr None
                else
                  (let have = int (length input_words) - fixed p
                   in case word_combinations have (placeholders p) of
                        None \<Rightarrow> Inl RecursionError
                      | Some combos \<Rightarrow> Inr (match_combos (pattern p) combos input_words))))"

section \<open>Registry and dispatch\<close>

text \<open>
  A handler is known by its name and the parameter names \<^verbatim>\<open>inspect.signature\<close>
  reports; what it does when called is outside the model. A keyword value is a captured
  string or any other object.
\<close>

record handler =
  func_name :: string
  parameters :: "string list"

datatype 'v pyval = Str string | Obj 'v

type_synonym 'v entry = "char Pattern \<times> handler \<times> (string, 'v pyval) dict"

text \<open>The two module globals.\<close>

record 'v game =
  current_context :: "string option"
  commands :: "'v entry list"

definition sys_exit :: handler where
  "sys_exit = \<lparr>func_name = ''exit'', parameters = [''status'']\<rparr>"

definition help_func :: handler where
  "help_func = \<lparr>func_name = ''help'', parameters = []\<rparr>"

text \<open>
  The state after import: \<^verbatim>\<open>current_context = 'default'\<close> and the list
  \<^verbatim>\<open>commands\<close> with the built-in quit command. \<^verbatim>\<open>Pattern('quit')\<close> does not
  raise (\<open>Pattern_quit\<close> below).
\<close>

definition initial :: "'v game" where
  "initial =
     \<lparr>current_context = Some ''default'',
      commands = [(projr (Pattern_init latin1 ''quit'' (Some ''default'')), sys_exit, [])]\<rparr>"

definition do_set_context :: "string \<Rightarrow> 'v game \<Rightarrow> 'v game" where
  "do_set_context new_context s = s\<lparr>current_context := set_context new_context\<rparr>"

text \<open>
  \<^verbatim>\<open>_register\<close>: the result is the exception raised, if any, together with the
  globals as the call leaves them.
\<close>

definition register ::
  "string \<Rightarrow> handler \<Rightarrow> string option \<Rightarrow> (string, 'v pyval) dict \<Rightarrow> 'v game
   \<Rightarrow> (char error + unit) \<times> 'v game" where
  "register command func context kwargs s =
     (case Pattern_init latin1 command context of
        Inl e \<Rightarrow> (Inl e, s)
      | Inr pat \<Rightarrow>
          (let func_argnames = set (parameters func);
               when_argnames = set (argnames pat) \<union> set (map fst kwargs)
           in if func_argnames \<noteq> when_argnames
              then (Inl (InvalidCommand WrongSignature command), s)
              else (Inr (), s\<lparr>commands := commands s @ [(pat, func, kwargs)]\<rparr>)))"

text \<open>
  What \<^verbatim>\<open>_handle_command\<close> calls: a handler with its keyword arguments, or
  \<^verbatim>\<open>no_command_matches\<close> with the line. The calls are recorded, not run, and the
  closing \<^verbatim>\<open>print()\<close> is left out, as all terminal output is.
\<close>

datatype 'v event = Call handler "(string, 'v pyval) dict" | NoCommandMatches string

fun handle_loop ::
  "string option \<Rightarrow> string list \<Rightarrow> 'v entry list \<Rightarrow> string \<Rightarrow> char error + 'v event list" where
  "handle_loop cur ws [] cmd = Inr [NoCommandMatches cmd]"
| "handle_loop cur ws ((pat, func, kwargs) # rest) cmd =
     (let args = kwargs
      in case match cur pat ws of
           Inl e \<Rightarrow> Inl e
         | Inr None \<Rightarrow> handle_loop cur ws rest cmd
         | Inr (Some matches) \<Rightarrow>
             Inr [Call func (dict_update args (map (\<lambda>(k, v). (k, Str v)) matches))])"

definition handle_command :: "'v game \<Rightarrow> string \<Rightarrow> char error + 'v event list" where
  "handle_command s cmd =
     (let ws = str_split latin1 (str_lower latin1 cmd)
      in handle_loop (current_context s) ws (commands s) cmd)"

text \<open>
  The first block of \<^verbatim>\<open>start\<close>, before the loop that reads lines:
  \<^verbatim>\<open>commands.insert(0, ...)\<close> twice.
\<close>

definition start_help :: "bool \<Rightarrow> 'v game \<Rightarrow> 'v game" where
  "start_help with_help s =
     (if with_help then
        (let qmark = (projr (Pattern_init latin1 ''help'' (Some ''default'')))
                       \<lparr>prefix := [''?''], orig_pattern := ''?''\<rparr>;
             s1 = s\<lparr>commands :=
                      (projr (Pattern_init latin1 ''help'' (Some ''default'')), help_func, []) # commands s\<rparr>
         in s1\<lparr>commands := (qmark, help_func, []) # commands s1\<rparr>)
      else s)"

section \<open>Notions of the specification\<close>

text \<open>The qualified path of a context: the root stays, any other context goes under it.\<close>

definition qualify :: "string \<Rightarrow> string" where
  "qualify c = (if c = ''default'' then ''default'' else ''default.'' @ c)"

text \<open>A pattern of context \<open>shop\<close>, as \<^verbatim>\<open>Pattern('buy ITEM', 'shop')\<close> builds it.\<close>

definition shop_pattern :: "char Pattern" where
  "shop_pattern =
     \<lparr>orig_pattern = ''buy ITEM'', pattern_context = Some ''shop'', placeholders = 1,
      argnames = [''item''], prefix = [''buy''], pattern = [Placeholder ''item''], fixed = 0\<rparr>"

text \<open>
  The words of the pattern grammar, by the letters they hold. An uppercase word: letters
  only, at least one uppercase, none lowercase or titlecase; a lowercase word: letters
  only, at least one lowercase, none uppercase or titlecase (letters without case may
  stand in both). A word that the compiler rejects: one with a character that is not a
  letter, with a titlecase letter, with both an uppercase and a lowercase letter, or with
  no uppercase and no lowercase letter at all.
\<close>

definition all_upper :: "'c unicode \<Rightarrow> 'c list \<Rightarrow> bool" where
  "all_upper U w =
     (list_all (u_isalpha U) w \<and> list_ex (u_isupper U) w
      \<and> \<not> list_ex (u_islower U) w \<and> \<not> list_ex (u_istitle U) w)"

definition all_lower :: "'c unicode \<Rightarrow> 'c list \<Rightarrow> bool" where
  "all_lower U w =
     (list_all (u_isalpha U) w \<and> list_ex (u_islower U) w
      \<and> \<not> list_ex (u_isupper U) w \<and> \<not> list_ex (u_istitle U) w)"

definition malformed_word :: "'c unicode \<Rightarrow> 'c list \<Rightarrow> bool" where
  "malformed_word U w =
     (list_ex (\<lambda>c. \<not> u_isalpha U c) w
      \<or> list_ex (u_istitle U) w
      \<or> (list_ex (u_isupper U) w \<and> list_ex (u_islower U) w)
      \<or> (\<not> list_ex (u_isupper U) w \<and> \<not> list_ex (u_islower U) w))"

text \<open>
  The two faults that the claim about the compiler names: a character that is not a
  letter, and uppercase mixed with lowercase.
\<close>

definition nonletter_or_mixed :: "'c unicode \<Rightarrow> 'c list \<Rightarrow> bool" where
  "nonletter_or_mixed U w =
     (list_ex (\<lambda>c. \<not> u_isalpha U c) w
      \<or> (list_ex (u_isupper U) w \<and> list_ex (u_islower U) w))"

text \<open>
  The token of a word: a placeholder named by the lowercased word for an uppercase word,
  the word itself as a literal otherwise; and the tokens of a template.
\<close>

definition classify :: "'c unicode \<Rightarrow> 'c list \<Rightarrow> 'c token" where
  "classify U w = (if all_upper U w then Placeholder (str_lower U w) else Word w)"

fun is_literal :: "'c token \<Rightarrow> bool" where
  "is_literal (Word w) = True"
| "is_literal (Placeholder a) = False"

fun token_names :: "'c token list \<Rightarrow> 'c list list" where
  "token_names [] = []"
| "token_names (Placeholder a # ts) = a # token_names ts"
| "token_names (Word w # ts) = token_names ts"

fun token_text :: "'c token \<Rightarrow> 'c list" where
  "token_text (Word w) = w"
| "token_text (Placeholder a) = a"

definition template_tokens :: "'c unicode \<Rightarrow> 'c list \<Rightarrow> 'c token list" where
  "template_tokens U t = map (classify U) (str_split U t)"

text \<open>
  The patterns that \<^verbatim>\<open>Pattern('take ITEM ITEM')\<close> and
  \<^verbatim>\<open>Pattern('put ITEM in CONTAINER')\<close> build.
\<close>

definition take_item_item :: "char Pattern" where
  "take_item_item =
     \<lparr>orig_pattern = ''take ITEM ITEM'', pattern_context = Some ''default'', placeholders = 2,
      argnames = [''item'', ''item''], prefix = [''take''],
      pattern = [Placeholder ''item'', Placeholder ''item''], fixed = 0\<rparr>"

definition put_pattern :: "char Pattern" where
  "put_pattern =
     \<lparr>orig_pattern = ''put ITEM in CONTAINER'', pattern_context = Some ''default'',
      placeholders = 2, argnames = [''item'', ''container''], prefix = [''put''],
      pattern = [Placeholder ''item'', Word ''in'', Placeholder ''container''], fixed = 1\<rparr>"

text \<open>
  The tuples of the allocator as a list, where the generator finishes (it does for
  \<open>placeholders \<ge> 1\<close>, \<open>word_combinations_Some\<close> below).
\<close>

definition allocate :: "int \<Rightarrow> int \<Rightarrow> int list list" where
  "allocate have k = (case word_combinations have k of Some combos \<Rightarrow> combos | None \<Rightarrow> [])"

text \<open>
  Lexicographic order of tuples, as Python compares them: \<open>lex_gt a b\<close> is
  \<^verbatim>\<open>a > b\<close>.
\<close>

fun lex_gt :: "int list \<Rightarrow> int list \<Rightarrow> bool" where
  "lex_gt [] ys = False"
| "lex_gt (x # xs) [] = True"
| "lex_gt (x # xs) (y # ys) = (x > y \<or> (x = y \<and> lex_gt xs ys))"

text \<open>
  The patterns of the built-in entries, as \<^verbatim>\<open>Pattern('quit')\<close> and
  \<^verbatim>\<open>Pattern('help')\<close> build them, and the latter as \<^verbatim>\<open>start\<close> changes it.
\<close>

definition quit_pattern :: "char Pattern" where
  "quit_pattern =
     \<lparr>orig_pattern = ''quit'', pattern_context = Some ''default'', placeholders = 0,
      argnames = [], prefix = [''quit''], pattern = [], fixed = 0\<rparr>"

definition help_pattern :: "char Pattern" where
  "help_pattern =
     \<lparr>orig_pattern = ''help'', pattern_context = Some ''default'', placeholders = 0,
      argnames = [], prefix = [''help''], pattern = [], fixed = 0\<rparr>"

definition qmark_pattern :: "char Pattern" where
  "qmark_pattern = help_pattern\<lparr>prefix := [''?''], orig_pattern := ''?''\<rparr>"

text \<open>
  The states that setting up a game produces: the state after import, then calls of
  \<^verbatim>\<open>set_context\<close> and of \<^verbatim>\<open>when\<close> (that is \<^verbatim>\<open>_register\<close>), whether they raise or
  not; and the states of a running game, where \<^verbatim>\<open>start\<close> may have been called as well.
\<close>

inductive configured :: "'v game \<Rightarrow> bool" where
  configured_initial: "configured initial"
| configured_set_context: "configured s \<Longrightarrow> configured (do_set_context c s)"
| configured_register: "configured s \<Longrightarrow> configured (snd (register command func context kwargs s))"


text \<open>The pattern that \<^verbatim>\<open>Pattern('take ITEM')\<close> builds.\<close>

definition take_pattern :: "char Pattern" where
  "take_pattern =
     \<lparr>orig_pattern = ''take ITEM'', pattern_context = Some ''default'', placeholders = 1,
      argnames = [''item''], prefix = [''take''], pattern = [Placeholder ''item''], fixed = 0\<rparr>"

text \<open>A handler for a user's own \<open>quit\<close> command.\<close>

definition user_quit :: handler where
  "user_quit = \<lparr>func_name = ''leave'', parameters = []\<rparr>"

text \<open>
  Matching as the specification words it. One allocation is walked over the tokens: a
  placeholder takes its allotted number of words, joined by single spaces, under its
  name; a literal must be the next word. The result is the mapping and the input left.
\<close>

fun consume ::
  "char token list \<Rightarrow> int list \<Rightarrow> string list \<Rightarrow> (string \<rightharpoonup> string)
   \<Rightarrow> ((string \<rightharpoonup> string) \<times> string list) option" where
  "consume [] alloc inp m = Some (m, inp)"
| "consume (Placeholder name # ts) alloc inp m =
     (case alloc of
        [] \<Rightarrow> None
      | n # alloc' \<Rightarrow>
          (if nat n \<le> length inp
           then consume ts alloc' (drop (nat n) inp) (m(name \<mapsto> str_join (take (nat n) inp)))
           else None))"
| "consume (Word w # ts) alloc inp m =
     (case inp of
        [] \<Rightarrow> None
      | x # inp' \<Rightarrow> (if x = w then consume ts alloc inp' m else None))"

text \<open>
  The first allocation, in the order given, that consumes every token and leaves no
  input.
\<close>

fun first_fit ::
  "char token list \<Rightarrow> string list \<Rightarrow> int list list \<Rightarrow> (string \<rightharpoonup> string) option" where
  "first_fit ts inp [] = None"
| "first_fit ts inp (alloc # allocs) =
     (case consume ts alloc inp Map.empty of
        None \<Rightarrow> first_fit ts inp allocs
      | Some (m, left) \<Rightarrow> (if left = [] then Some m else first_fit ts inp allocs))"

definition match_spec :: "string \<Rightarrow> char Pattern \<Rightarrow> string list \<Rightarrow> (string \<rightharpoonup> string) option" where
  "match_spec cur p ws =
     (if is_active (Some cur) p \<noteq> Inr True then None
      else if int (length ws) < placeholders p then None
      else if take (length (prefix p)) ws \<noteq> prefix p then None
      else
        (let rest = drop (length (prefix p)) ws
         in if pattern p = [] \<and> rest = [] then Some Map.empty
            else if (pattern p = []) \<noteq> (rest = []) then None
            else first_fit (pattern p) rest
                   (allocate (int (length rest) - fixed p) (placeholders p))))"

text \<open>A handler with the one parameter \<open>item\<close>, and a game with one command for it.\<close>

definition take_handler :: handler where
  "take_handler = \<lparr>func_name = ''take'', parameters = [''item'']\<rparr>"


definition take_game_fixed :: "unit game" where
  "take_game_fixed =
     \<lparr>current_context = Some ''default'',
      commands = [(quit_pattern, sys_exit, []),
                  (take_pattern, take_handler, [(''item'', Obj ())])]\<rparr>"

section \<open>Properties\<close>

lemma Pattern_quit:
  "Pattern_init latin1 ''quit'' (Some ''default'') =
     Inr \<lparr>orig_pattern = ''quit'', pattern_context = Some ''default'', placeholders = 0,
          argnames = [], prefix = [''quit''], pattern = [], fixed = 0\<rparr>"
  by code_simp

lemma take_eq_prefix: "(u = take (length u) c) \<longleftrightarrow> (\<exists>r. c = u @ r)"
  by (metis append_eq_conv_conj append_take_drop_id)

lemma active_under:
  "(if q = cur then Inr True
    else if q @ ''.'' = take (length q + 1) cur then Inr True else Inr False) =
   (Inr (cur = q \<or> (\<exists>rest. cur = q @ ''.'' @ rest)) :: char error + bool)"
proof -
  have "(q @ ''.'' = take (length q + 1) cur) \<longleftrightarrow> (\<exists>rest. cur = q @ ''.'' @ rest)"
    using take_eq_prefix [of "q @ ''.''" cur] by simp
  then show ?thesis by auto
qed

lemma is_active_Some:
  assumes "pattern_context p = Some c"
  shows "is_active (Some cur) p =
     Inr (cur = qualify c \<or> (\<exists>rest. cur = qualify c @ ''.'' @ rest))"
proof -
  define q where "q = qualify c"
  have q: "(if c \<noteq> ''default'' then ''default.'' @ c else c) = q"
    by (simp add: q_def qualify_def)
  have "is_active (Some cur) p =
      (if q = cur then Inr True
       else if q @ ''.'' = take (length q + 1) cur then Inr True else Inr False)"
    unfolding is_active_def Let_def using assms q by (simp only: option.case)
  also have "\<dots> = Inr (cur = q \<or> (\<exists>rest. cur = q @ ''.'' @ rest))"
    by (rule active_under)
  finally show ?thesis unfolding q_def .
qed

lemma is_active_shop:
  "pattern_context p = Some ''shop'' \<Longrightarrow>
        is_active (set_context ''shop'') p = Inr True
        \<and> is_active (set_context ''shop.register'') p = Inr True
        \<and> is_active (Some ''default'') p = Inr False"
  by (simp add: is_active_def set_context_def)

text \<open>
  C3: \<open>is_active\<close> raises \<open>InvalidContext\<close> when the current context is unset; a
  pattern without a context is not active; a pattern with context \<open>c\<close> is active exactly
  when the current context is the qualified path of \<open>c\<close> or starts with that path and a
  dot. A pattern of context \<open>shop\<close> is active after \<open>set_context\<close> of \<open>shop\<close> or of
  \<open>shop.register\<close>, and not under the root \<open>default\<close>.
\<close>
theorem is_active_context:
  "is_active None p = Inl InvalidContext
   \<and> (pattern_context p = None \<longrightarrow> is_active (Some cur) p = Inr False)
   \<and> (pattern_context p = Some c \<longrightarrow>
        is_active (Some cur) p =
          Inr (cur = qualify c \<or> (\<exists>rest. cur = qualify c @ ''.'' @ rest)))
   \<and> (pattern_context p = Some ''shop'' \<longrightarrow>
        is_active (set_context ''shop'') p = Inr True
        \<and> is_active (set_context ''shop.register'') p = Inr True
        \<and> is_active (Some ''default'') p = Inr False)"
proof (intro conjI impI)
  show "is_active None p = Inl InvalidContext" by (simp add: is_active_def)
  show "is_active (Some cur) p = Inr False" if "pattern_context p = None"
    using that by (simp add: is_active_def)
  show "is_active (Some cur) p = Inr (cur = qualify c \<or> (\<exists>rest. cur = qualify c @ ''.'' @ rest))"
    if "pattern_context p = Some c" using that by (rule is_active_Some)
  show "is_active (set_context ''shop'') p = Inr True" if "pattern_context p = Some ''shop''"
    using is_active_shop [OF that] by simp
  show "is_active (set_context ''shop.register'') p = Inr True" if "pattern_context p = Some ''shop''"
    using is_active_shop [OF that] by simp
  show "is_active (Some ''default'') p = Inr False" if "pattern_context p = Some ''shop''"
    using is_active_shop [OF that] by simp
qed

lemma set_context_cases:
  "set_context c = Some ''default'' \<or> (\<exists>r. set_context c = Some (''default.'' @ r))"
  by (simp add: set_context_def)

lemma fold_set_context_last:
  "current_context (fold do_set_context (cs @ [c]) s) = set_context c"
  by (simp add: do_set_context_def)

lemma fold_set_context_initial:
  "current_context (fold do_set_context cs (initial :: 'v game)) = Some ''default''
    \<or> (\<exists>r. current_context (fold do_set_context cs (initial :: 'v game)) = Some (''default.'' @ r))"
proof (cases cs rule: rev_cases)
  case Nil
  then show ?thesis by (simp add: initial_def)
next
  case (snoc ys y)
  then show ?thesis
    using set_context_cases [of y] by (simp only: fold_set_context_last)
qed

text \<open>
  C10: \<open>set_context c\<close> sets the current context to \<open>default\<close> for \<open>c = default\<close>
  and to \<open>default.\<close> followed by \<open>c\<close> otherwise, and changes nothing else. After any
  sequence of calls from the initial state, and after at least one call from any state,
  the current context is \<open>default\<close> or starts with \<open>default.\<close>; on
  \<open>default.shop\<close> the result is \<open>default.default.shop\<close>, which differs from the
  result on \<open>shop\<close>.
\<close>
theorem set_context_qualifies:
  "set_context c = Some (if c = ''default'' then ''default'' else ''default.'' @ c)
   \<and> current_context (do_set_context c s) = set_context c
   \<and> commands (do_set_context c s) = commands s
   \<and> (current_context (fold do_set_context cs (initial :: 'v game)) = Some ''default''
        \<or> (\<exists>r. current_context (fold do_set_context cs (initial :: 'v game)) = Some (''default.'' @ r)))
   \<and> (current_context (fold do_set_context (cs @ [c]) s) = Some ''default''
        \<or> (\<exists>r. current_context (fold do_set_context (cs @ [c]) s) = Some (''default.'' @ r)))
   \<and> set_context ''default.shop'' = Some ''default.default.shop''
   \<and> set_context ''default.shop'' \<noteq> set_context ''shop''"
proof (intro conjI)
  show "set_context c = Some (if c = ''default'' then ''default'' else ''default.'' @ c)"
    by (simp add: set_context_def)
  show "current_context (do_set_context c s) = set_context c" by (simp add: do_set_context_def)
  show "commands (do_set_context c s) = commands s" by (simp add: do_set_context_def)
  show "current_context (fold do_set_context cs (initial :: 'v game)) = Some ''default''
        \<or> (\<exists>r. current_context (fold do_set_context cs (initial :: 'v game)) = Some (''default.'' @ r))"
    by (rule fold_set_context_initial)
  show "current_context (fold do_set_context (cs @ [c]) s) = Some ''default''
        \<or> (\<exists>r. current_context (fold do_set_context (cs @ [c]) s) = Some (''default.'' @ r))"
    using set_context_cases [of c] by (simp only: fold_set_context_last)
  show "set_context ''default.shop'' = Some ''default.default.shop''" by (simp add: set_context_def)
  show "set_context ''default.shop'' \<noteq> set_context ''shop''" by (simp add: set_context_def)
qed

theorem is_active_context_witness:
  "pattern_context shop_pattern = Some ''shop''
   \<and> pattern_context (shop_pattern\<lparr>pattern_context := None\<rparr>) = None
   \<and> is_active None shop_pattern = Inl InvalidContext
   \<and> is_active (Some ''default.shop.register'') shop_pattern = Inr True
   \<and> is_active (Some ''default.shopping'') shop_pattern = Inr False
   \<and> is_active (set_context ''shop'') shop_pattern = Inr True
   \<and> is_active (Some ''default'') shop_pattern = Inr False
   \<and> is_active (Some ''default'') (shop_pattern\<lparr>pattern_context := None\<rparr>) = Inr False"
proof -
  have c: "pattern_context shop_pattern = Some ''shop''" by (simp add: shop_pattern_def)
  have n: "pattern_context (shop_pattern\<lparr>pattern_context := None\<rparr>) = None" by simp
  show ?thesis
    using c n is_active_context [of shop_pattern "''default.shop.register''" "''shop''"]
      is_active_context [of shop_pattern "''default.shopping''" "''shop''"]
      is_active_context [of "shop_pattern\<lparr>pattern_context := None\<rparr>" "''default''" "''shop''"]
    by (simp add: qualify_def)
qed

theorem set_context_qualifies_witness:
  "set_context ''shop'' = Some ''default.shop''
   \<and> set_context ''default'' = Some ''default''
   \<and> current_context (fold do_set_context [''shop'', ''default.shop''] (initial :: unit game))
       = Some ''default.default.shop''"
  using set_context_qualifies [of "''shop''" initial "[]"]
    set_context_qualifies [of "''default''" initial "[]"]
    set_context_qualifies [of "''default.shop''" "initial :: unit game" "[''shop'']"]
  by (simp add: set_context_def do_set_context_def)

lemma split_run_nonempty: "w \<in> set (split_run U cur s) \<Longrightarrow> w \<noteq> []"
  by (induction U cur s rule: split_run.induct) (auto split: if_splits)

lemma str_split_nonempty: "w \<in> set (str_split U s) \<Longrightarrow> w \<noteq> []"
  unfolding str_split_def by (rule split_run_nonempty)

lemma malformed_empty: "malformed_word U []"
  by (simp add: malformed_word_def)

lemma word_good:
  assumes "\<not> malformed_word U w"
  shows "str_isalpha U w" and "str_isupper U w \<longleftrightarrow> all_upper U w"
    and "\<not> all_upper U w \<Longrightarrow> str_islower U w \<and> all_lower U w"
proof -
  from assms have ne: "w \<noteq> []" using malformed_empty by auto
  from assms have alpha: "\<forall>c\<in>set w. u_isalpha U c"
    and notitle: "\<forall>c\<in>set w. \<not> u_istitle U c"
    and nomix: "(\<forall>c\<in>set w. \<not> u_isupper U c) \<or> (\<forall>c\<in>set w. \<not> u_islower U c)"
    and cased: "(\<exists>c\<in>set w. u_isupper U c) \<or> (\<exists>c\<in>set w. u_islower U c)"
    by (auto simp: malformed_word_def list_ex_iff)
  show "str_isalpha U w" using ne alpha by (simp add: str_isalpha_def list_all_iff)
  show "str_isupper U w \<longleftrightarrow> all_upper U w"
    using alpha notitle nomix cased
    unfolding str_isupper_def all_upper_def list_all_iff list_ex_iff
    by blast
  show "str_islower U w \<and> all_lower U w" if "\<not> all_upper U w"
    using that alpha notitle nomix cased
    unfolding str_islower_def all_lower_def all_upper_def list_all_iff list_ex_iff
    by blast
qed

lemma word_bad:
  assumes "malformed_word U w"
  shows "\<not> str_isalpha U w \<or> (\<not> str_isupper U w \<and> \<not> str_islower U w)"
  using assms
  unfolding malformed_word_def str_isalpha_def str_isupper_def str_islower_def
    list_all_iff list_ex_iff
  by blast

lemma token_names_append: "token_names (ts @ us) = token_names ts @ token_names us"
  by (induction ts rule: token_names.induct) auto

lemma init_words_good:
  "\<forall>w\<in>set ws. \<not> malformed_word U w \<Longrightarrow>
   init_words U pat ws tokens names n =
     Inr (tokens @ map (classify U) ws, names @ token_names (map (classify U) ws),
          n + int (length (token_names (map (classify U) ws))))"
proof (induction ws arbitrary: tokens names n)
  case Nil
  then show ?case by simp
next
  case (Cons w ws)
  then have w: "\<not> malformed_word U w" by auto
  show ?case
  proof (cases "all_upper U w")
    case True
    then show ?thesis
      using Cons word_good(1,2) [OF w] by (simp add: classify_def Let_def)
  next
    case False
    then show ?thesis
      using Cons word_good(1,2) [OF w] word_good(3) [OF w False] by (simp add: classify_def)
  qed
qed

lemma init_words_bad:
  "\<exists>w\<in>set ws. malformed_word U w \<Longrightarrow>
   \<exists>f. (f = LettersOnly \<or> f = MixedCase)
        \<and> init_words U pat ws tokens names n = Inl (InvalidCommand f pat)"
proof (induction ws arbitrary: tokens names n)
  case Nil
  then show ?case by simp
next
  case (Cons w ws)
  show ?case
  proof (cases "malformed_word U w")
    case True
    then show ?thesis using word_bad [OF True] by auto
  next
    case False
    with Cons.prems have rest: "\<exists>w\<in>set ws. malformed_word U w" by auto
    show ?thesis
      using Cons.IH [OF rest] word_good(1,2) [OF False] word_good(3) [OF False]
      by (cases "all_upper U w") (simp_all add: Let_def)
  qed
qed

lemma leading_words_takeWhile: "leading_words ts = map token_text (takeWhile is_literal ts)"
  by (induction ts rule: leading_words.induct) auto

lemma drop_leading_words: "drop (length (leading_words ts)) ts = dropWhile is_literal ts"
  by (induction ts rule: leading_words.induct) auto

lemma leading_words_append_drop:
  "map Word (leading_words ts) @ drop (length (leading_words ts)) ts = ts"
  by (induction ts rule: leading_words.induct) auto

lemma token_names_dropWhile: "token_names (dropWhile is_literal ts) = token_names ts"
  by (induction ts rule: token_names.induct) auto

lemma length_token_names: "length (token_names ts) = length (filter (\<lambda>k. \<not> is_literal k) ts)"
  by (induction ts rule: token_names.induct) auto

lemma Pattern_init_good:
  assumes "\<forall>w\<in>set (str_split U t). \<not> malformed_word U w"
  shows "Pattern_init U t c =
     Inr \<lparr>orig_pattern = t, pattern_context = c,
          placeholders = int (length (token_names (template_tokens U t))),
          argnames = token_names (template_tokens U t),
          prefix = leading_words (template_tokens U t),
          pattern = dropWhile is_literal (template_tokens U t),
          fixed = int (length (dropWhile is_literal (template_tokens U t)))
                  - int (length (token_names (template_tokens U t)))\<rparr>"
proof -
  from init_words_good [OF assms, of t "[]" "[]" 0]
  show ?thesis
    by (simp add: Pattern_init_def template_tokens_def Let_def drop_leading_words del: length_drop)
qed

lemma Pattern_init_bad:
  assumes "\<exists>w\<in>set (str_split U t). malformed_word U w"
  shows "Pattern_init U t c = Inl (InvalidCommand LettersOnly t)
         \<or> Pattern_init U t c = Inl (InvalidCommand MixedCase t)"
proof -
  from init_words_bad [OF assms, of t "[]" "[]" 0]
  show ?thesis by (auto simp: Pattern_init_def)
qed

lemma Pattern_init_Inl_iff:
  "(\<exists>e. Pattern_init U t c = Inl e) \<longleftrightarrow> (\<exists>w\<in>set (str_split U t). malformed_word U w)"
proof
  assume "\<exists>e. Pattern_init U t c = Inl e"
  then obtain e where e: "Pattern_init U t c = Inl e" ..
  show "\<exists>w\<in>set (str_split U t). malformed_word U w"
  proof (rule ccontr)
    assume "\<not> (\<exists>w\<in>set (str_split U t). malformed_word U w)"
    then have "\<forall>w\<in>set (str_split U t). \<not> malformed_word U w" by simp
    from Pattern_init_good [OF this, of c] e show False by simp
  qed
next
  assume "\<exists>w\<in>set (str_split U t). malformed_word U w"
  then show "\<exists>e. Pattern_init U t c = Inl e"
    using Pattern_init_bad [of U t c] by auto
qed

lemma Pattern_init_Inr:
  assumes "Pattern_init U t c = Inr p"
  shows "\<forall>w\<in>set (str_split U t). \<not> malformed_word U w"
    and "p = \<lparr>orig_pattern = t, pattern_context = c,
          placeholders = int (length (token_names (template_tokens U t))),
          argnames = token_names (template_tokens U t),
          prefix = leading_words (template_tokens U t),
          pattern = dropWhile is_literal (template_tokens U t),
          fixed = int (length (dropWhile is_literal (template_tokens U t)))
                  - int (length (token_names (template_tokens U t)))\<rparr>"
proof -
  show g: "\<forall>w\<in>set (str_split U t). \<not> malformed_word U w"
    using assms Pattern_init_Inl_iff [of U t c] by auto
  show "p = \<lparr>orig_pattern = t, pattern_context = c,
          placeholders = int (length (token_names (template_tokens U t))),
          argnames = token_names (template_tokens U t),
          prefix = leading_words (template_tokens U t),
          pattern = dropWhile is_literal (template_tokens U t),
          fixed = int (length (dropWhile is_literal (template_tokens U t)))
                  - int (length (token_names (template_tokens U t)))\<rparr>"
    using assms Pattern_init_good [OF g, of c] by simp
qed

lemma classify_word:
  assumes "\<not> malformed_word U w"
  shows "(all_lower U w \<and> \<not> all_upper U w \<and> classify U w = Word w)
       \<or> (all_upper U w \<and> \<not> all_lower U w \<and> classify U w = Placeholder (str_lower U w))"
proof (cases "all_upper U w")
  case True
  then have "\<not> all_lower U w" by (auto simp: all_upper_def all_lower_def)
  with True show ?thesis by (simp add: classify_def)
next
  case False
  with word_good(3) [OF assms False] show ?thesis by (simp add: classify_def)
qed

lemma template_token_cases:
  assumes "\<forall>w\<in>set (str_split U t). \<not> malformed_word U w" "k \<in> set (template_tokens U t)"
  shows "(\<exists>w\<in>set (str_split U t). all_lower U w \<and> k = Word w)
       \<or> (\<exists>w\<in>set (str_split U t). all_upper U w \<and> k = Placeholder (str_lower U w))"
proof -
  from assms(2) obtain w where w: "w \<in> set (str_split U t)" "k = classify U w"
    by (auto simp: template_tokens_def)
  from w(1) assms(1) have "\<not> malformed_word U w" by auto
  from classify_word [OF this] w show ?thesis by auto
qed

lemma leading_words_in: "w \<in> set (leading_words ts) \<Longrightarrow> Word w \<in> set ts"
  by (induction ts rule: leading_words.induct) auto

lemma length_dropWhile_literal:
  "int (length (dropWhile is_literal ts)) = int (length ts) - int (length (leading_words ts))"
proof -
  have "length (map Word (leading_words ts) @ drop (length (leading_words ts)) ts) = length ts"
    by (simp only: leading_words_append_drop)
  then show ?thesis by (simp add: drop_leading_words [symmetric] del: length_drop)
qed

lemma Pattern_put: "Pattern_init latin1 ''put ITEM in CONTAINER'' (Some ''default'') = Inr put_pattern"
  by code_simp

lemma Pattern_take_item_item: "Pattern_init latin1 ''take ITEM ITEM'' (Some ''default'') = Inr take_item_item"
  by code_simp

lemma Pattern_mixed: "Pattern_init latin1 ''take Item'' (Some ''default'') = Inl (InvalidCommand MixedCase ''take Item'')"
  by code_simp

lemma Pattern_digit: "Pattern_init latin1 ''go 2'' (Some ''default'') = Inl (InvalidCommand LettersOnly ''go 2'')"
  by code_simp

lemma Pattern_uncased:
  "Pattern_init codepoints uncased_template (Some (codes ''default''))
     = Inl (InvalidCommand MixedCase uncased_template)"
  by code_simp

lemma split_uncased: "str_split codepoints uncased_template = [[21462], [73, 84, 69, 77]]"
  by code_simp

text \<open>
  C6, as stated, fails: a word can be rejected though all its characters are letters and
  it does not mix uppercase with lowercase. The template made of the ideograph U+53D6, a
  space and \<open>ITEM\<close> has two words, the ideograph alone and \<open>ITEM\<close>; the
  ideograph is a letter without case, so \<^verbatim>\<open>isalpha\<close> holds of the first word while
  \<^verbatim>\<open>isupper\<close> and \<^verbatim>\<open>islower\<close> both fail, and \<^verbatim>\<open>Pattern.__init__\<close> raises from
  its last branch.
\<close>

theorem Pattern_init_uncased_word:
  "Pattern_init codepoints uncased_template (Some (codes ''default''))
     = Inl (InvalidCommand MixedCase uncased_template)
   \<and> uncased_template = [21462, 32, 73, 84, 69, 77]
   \<and> str_split codepoints uncased_template = [[21462], [73, 84, 69, 77]]
   \<and> \<not> nonletter_or_mixed codepoints [21462]
   \<and> \<not> nonletter_or_mixed codepoints [73, 84, 69, 77]"
proof (intro conjI)
  show "Pattern_init codepoints uncased_template (Some (codes ''default''))
          = Inl (InvalidCommand MixedCase uncased_template)"
    by (rule Pattern_uncased)
  show "uncased_template = [21462, 32, 73, 84, 69, 77]" by code_simp
  show "str_split codepoints uncased_template = [[21462], [73, 84, 69, 77]]"
    by (rule split_uncased)
  show "\<not> nonletter_or_mixed codepoints [21462]" by code_simp
  show "\<not> nonletter_or_mixed codepoints [73, 84, 69, 77]" by code_simp
qed

text \<open>
  C6, amended: over any tables of character classes, \<^verbatim>\<open>Pattern.__init__\<close> raises
  \<open>InvalidCommand\<close> (letters only, or mixed case) exactly when some word of the split
  template has a character that is not a letter, has a titlecase letter, has both an
  uppercase and a lowercase letter, or has no uppercase and no lowercase letter.
  Otherwise every word is a lowercase word (letters only, at least one lowercase, none
  uppercase or titlecase), a literal, or an uppercase word (letters only, at least one
  uppercase, none lowercase or titlecase), a placeholder named by the lowercased word;
  the prefix is the longest leading run of literals, the pattern is the rest, and
  \<open>fixed\<close> is the token count less the prefix length less the placeholder count. The
  result is a function of the template and the context alone.
\<close>

theorem Pattern_init_compiles:
  "((\<exists>e. Pattern_init U t c = Inl e) \<longleftrightarrow> (\<exists>w\<in>set (str_split U t). malformed_word U w))
   \<and> (\<forall>e. Pattern_init U t c = Inl e \<longrightarrow>
          e = InvalidCommand LettersOnly t \<or> e = InvalidCommand MixedCase t)
   \<and> (\<forall>p. Pattern_init U t c = Inr p \<longrightarrow>
          (\<forall>w\<in>set (str_split U t).
              (all_lower U w \<and> classify U w = Word w)
            \<or> (all_upper U w \<and> classify U w = Placeholder (str_lower U w)))
        \<and> map Word (prefix p) @ pattern p = template_tokens U t
        \<and> prefix p = map token_text (takeWhile is_literal (template_tokens U t))
        \<and> pattern p = dropWhile is_literal (template_tokens U t)
        \<and> placeholders p = int (length (filter (\<lambda>k. \<not> is_literal k) (template_tokens U t)))
        \<and> argnames p = token_names (template_tokens U t)
        \<and> fixed p = (int (length (template_tokens U t)) - int (length (prefix p))) - placeholders p
        \<and> orig_pattern p = t \<and> pattern_context p = c)"
proof (intro conjI allI impI)
  show "(\<exists>e. Pattern_init U t c = Inl e) \<longleftrightarrow> (\<exists>w\<in>set (str_split U t). malformed_word U w)"
    by (rule Pattern_init_Inl_iff)
next
  fix e assume e: "Pattern_init U t c = Inl e"
  then have "\<exists>w\<in>set (str_split U t). malformed_word U w"
    using Pattern_init_Inl_iff [of U t c] by blast
  from Pattern_init_bad [OF this, of c] e
  show "e = InvalidCommand LettersOnly t \<or> e = InvalidCommand MixedCase t" by auto
next
  fix p assume p: "Pattern_init U t c = Inr p"
  note good = Pattern_init_Inr(1) [OF p] and rec = Pattern_init_Inr(2) [OF p]
  show "\<forall>w\<in>set (str_split U t).
              (all_lower U w \<and> classify U w = Word w)
            \<or> (all_upper U w \<and> classify U w = Placeholder (str_lower U w))"
    using good classify_word by blast
  show "map Word (prefix p) @ pattern p = template_tokens U t"
    using leading_words_append_drop [of "template_tokens U t"]
    by (simp add: rec drop_leading_words)
  show "prefix p = map token_text (takeWhile is_literal (template_tokens U t))"
    by (simp add: rec leading_words_takeWhile)
  show "pattern p = dropWhile is_literal (template_tokens U t)" by (simp add: rec)
  show "placeholders p = int (length (filter (\<lambda>k. \<not> is_literal k) (template_tokens U t)))"
    by (simp add: rec length_token_names)
  show "argnames p = token_names (template_tokens U t)" by (simp add: rec)
  show "fixed p = (int (length (template_tokens U t)) - int (length (prefix p))) - placeholders p"
    by (simp add: rec length_dropWhile_literal)
  show "orig_pattern p = t" by (simp add: rec)
  show "pattern_context p = c" by (simp add: rec)
qed

theorem Pattern_init_compiles_witness:
  "Pattern_init latin1 ''put ITEM in CONTAINER'' (Some ''default'') = Inr put_pattern
   \<and> template_tokens latin1 ''put ITEM in CONTAINER'' =
       [Word ''put'', Placeholder ''item'', Word ''in'', Placeholder ''container'']
   \<and> prefix put_pattern = [''put''] \<and> fixed put_pattern = (4 - 1) - 2
   \<and> Pattern_init latin1 ''take Item'' (Some ''default'') = Inl (InvalidCommand MixedCase ''take Item'')
   \<and> (\<exists>w\<in>set (str_split latin1 ''take Item''). malformed_word latin1 w)
   \<and> Pattern_init latin1 ''go 2'' (Some ''default'') = Inl (InvalidCommand LettersOnly ''go 2'')
   \<and> (\<exists>w\<in>set (str_split latin1 ''go 2''). malformed_word latin1 w)
   \<and> Pattern_init codepoints uncased_template (Some (codes ''default''))
       = Inl (InvalidCommand MixedCase uncased_template)
   \<and> (\<exists>w\<in>set (str_split codepoints uncased_template). malformed_word codepoints w)"
proof -
  have put: "map Word (prefix put_pattern) @ pattern put_pattern
               = template_tokens latin1 ''put ITEM in CONTAINER''"
    using Pattern_init_compiles [of latin1 "''put ITEM in CONTAINER''" "Some ''default''"]
      Pattern_put
    by blast
  have mixed: "\<exists>w\<in>set (str_split latin1 ''take Item''). malformed_word latin1 w"
    using Pattern_init_compiles [of latin1 "''take Item''" "Some ''default''"] Pattern_mixed
    by blast
  have digit: "\<exists>w\<in>set (str_split latin1 ''go 2''). malformed_word latin1 w"
    using Pattern_init_compiles [of latin1 "''go 2''" "Some ''default''"] Pattern_digit
    by blast
  have uncased: "\<exists>w\<in>set (str_split codepoints uncased_template). malformed_word codepoints w"
    using Pattern_init_compiles [of codepoints uncased_template "Some (codes ''default'')"]
      Pattern_uncased
    by blast
  have tokens: "template_tokens latin1 ''put ITEM in CONTAINER'' =
       [Word ''put'', Placeholder ''item'', Word ''in'', Placeholder ''container'']"
    using put by (simp add: put_pattern_def)
  show ?thesis
    using Pattern_put Pattern_mixed Pattern_digit Pattern_uncased mixed digit uncased tokens
    by (simp add: put_pattern_def)
qed

text \<open>
  C7, as stated, fails: \<^verbatim>\<open>Pattern('take ITEM ITEM')\<close> is accepted and its argument
  names are \<open>item\<close> twice.
\<close>

theorem Pattern_duplicate_argnames:
  "Pattern_init latin1 ''take ITEM ITEM'' (Some ''default'') = Inr take_item_item
   \<and> argnames take_item_item = [''item'', ''item'']
   \<and> \<not> distinct (argnames take_item_item)"
  using Pattern_take_item_item by (simp add: take_item_item_def)

text \<open>
  C7, amended: over any tables of character classes, in every accepted pattern each
  prefix word and each literal token is a lowercase word of the template (letters only,
  at least one lowercase, none uppercase or titlecase; letters without case may occur),
  each placeholder is named by \<^verbatim>\<open>str.lower\<close> of an uppercase word of the template
  (letters only, at least one uppercase, none lowercase or titlecase), and the argument
  names are the names of the placeholder tokens in order, one for each placeholder,
  repetitions kept.
\<close>

theorem Pattern_tokens_wellformed:
  assumes "Pattern_init U t c = Inr p"
  shows "(\<forall>w\<in>set (prefix p). all_lower U w)
       \<and> (\<forall>k\<in>set (pattern p).
            (\<exists>w\<in>set (str_split U t). all_lower U w \<and> k = Word w)
          \<or> (\<exists>w\<in>set (str_split U t). all_upper U w \<and> k = Placeholder (str_lower U w)))
       \<and> argnames p = token_names (pattern p)
       \<and> int (length (argnames p)) = placeholders p"
proof (intro conjI ballI)
  note good = Pattern_init_Inr(1) [OF assms] and rec = Pattern_init_Inr(2) [OF assms]
  show "all_lower U w" if "w \<in> set (prefix p)" for w
  proof -
    from that have "Word w \<in> set (template_tokens U t)"
      using leading_words_in by (simp add: rec)
    from template_token_cases [OF good this] show ?thesis by auto
  qed
  show "(\<exists>w\<in>set (str_split U t). all_lower U w \<and> k = Word w)
          \<or> (\<exists>w\<in>set (str_split U t). all_upper U w \<and> k = Placeholder (str_lower U w))"
    if "k \<in> set (pattern p)" for k
  proof -
    from that have "k \<in> set (template_tokens U t)"
      using set_dropWhileD by (simp add: rec) fast
    from template_token_cases [OF good this] show ?thesis by blast
  qed
  show "argnames p = token_names (pattern p)" by (simp add: rec token_names_dropWhile)
  show "int (length (argnames p)) = placeholders p" by (simp add: rec)
qed

theorem Pattern_tokens_wellformed_witness:
  "Pattern_init latin1 ''take ITEM ITEM'' (Some ''default'') = Inr take_item_item
   \<and> all_lower latin1 ''take''
   \<and> argnames take_item_item = token_names (pattern take_item_item)
   \<and> int (length (argnames take_item_item)) = placeholders take_item_item"
proof -
  from Pattern_tokens_wellformed [OF Pattern_take_item_item]
  have a: "\<forall>w\<in>set (prefix take_item_item). all_lower latin1 w"
    and b: "argnames take_item_item = token_names (pattern take_item_item)"
    and c: "int (length (argnames take_item_item)) = placeholders take_item_item"
    by blast+
  from a have "all_lower latin1 ''take''" by (simp add: take_item_item_def)
  with b c Pattern_take_item_item show ?thesis by blast
qed

lemma those_map_Some:
  "\<forall>x\<in>set xs. g x = Some (f x) \<Longrightarrow> those (map g xs) = Some (map f xs)"
  by (induction xs) auto

lemma rev_upto_Suc: "rev [1..int (Suc n)] = int (Suc n) # rev [1..int n]"
proof -
  have "[1..int (Suc n)] = [1..int (Suc n) - 1] @ [int (Suc n)]"
    by (rule upto_rec2) simp
  then show ?thesis by simp
qed

lemma word_combinations_step:
  assumes "1 < k" "k < have"
    and "\<And>t. 1 \<le> t \<Longrightarrow> t \<le> have - (k - 1) \<Longrightarrow>
           word_combinations (have - t) (k - 1) = Some (f t)"
  shows "word_combinations have k =
     Some (concat (map (\<lambda>t. map (\<lambda>b. t # b) (f t)) (rev [1..have - (k - 1)])))"
proof -
  have "those (map (\<lambda>t. map_option (map (\<lambda>b. t # b)) (word_combinations (have - t) (k - 1)))
           (rev [1..have - (k - 1)]))
        = Some (map (\<lambda>t. map (\<lambda>b. t # b) (f t)) (rev [1..have - (k - 1)]))"
    by (rule those_map_Some) (simp add: assms(3))
  then show ?thesis
    using assms(1,2) by (subst word_combinations.simps) (simp add: Let_def)
qed

lemma word_combinations_finishes: "1 \<le> k \<Longrightarrow> \<exists>combos. word_combinations have k = Some combos"
proof (induction k arbitrary: "have" rule: int_ge_induct)
  case base
  show ?case by (subst word_combinations.simps) simp
next
  case (step i)
  show ?case
  proof (cases "i + 1 < have")
    case True
    have "word_combinations (have - t) (i + 1 - 1)
            = Some (the (word_combinations (have - t) i))" for t
      using step.IH [of "have - t"] by auto
    with step.hyps True
    have "word_combinations have (i + 1) =
       Some (concat (map (\<lambda>t. map (\<lambda>b. t # b) (the (word_combinations (have - t) i)))
          (rev [1..have - (i + 1 - 1)])))"
      by (intro word_combinations_step) auto
    then show ?thesis by blast
  next
    case False
    then show ?thesis
      using step.hyps by (subst word_combinations.simps) simp
  qed
qed

lemma word_combinations_Some: "1 \<le> k \<Longrightarrow> word_combinations have k = Some (allocate have k)"
  using word_combinations_finishes [of k "have"] by (auto simp: allocate_def)

lemma allocate_rec:
  assumes "1 \<le> k"
  shows "allocate have k =
     (if have < k then []
      else if have = k then [replicate (nat k) 1]
      else if k = 1 then [[have]]
      else concat (map (\<lambda>t. map (\<lambda>b. t # b) (allocate (have - t) (k - 1)))
                    (rev [1..have - (k - 1)])))"
proof (cases "1 < k \<and> k < have")
  case True
  then have "word_combinations have k =
       Some (concat (map (\<lambda>t. map (\<lambda>b. t # b) (allocate (have - t) (k - 1))) (rev [1..have - (k - 1)])))"
    by (intro word_combinations_step) (auto intro: word_combinations_Some)
  then show ?thesis using True by (simp add: allocate_def)
next
  case False
  then have "word_combinations have k =
      Some (if have < k then [] else if have = k then [replicate (nat k) 1] else [[have]])"
    using assms by (subst word_combinations.simps) auto
  then show ?thesis using False assms by (auto simp: allocate_def)
qed

lemma blocks_member:
  "a \<in> set (concat (map (\<lambda>t. map (\<lambda>b. t # b) (f t)) (rev [1..n]))) \<Longrightarrow>
   \<exists>t b. a = t # b \<and> 1 \<le> t \<and> t \<le> n \<and> b \<in> set (f t)"
  by auto

lemma allocate_tuples:
  "1 \<le> k \<Longrightarrow> a \<in> set (allocate have k) \<Longrightarrow>
   length a = nat k \<and> (\<forall>x\<in>set a. 1 \<le> x) \<and> sum_list a = have"
proof (induction k arbitrary: "have" a rule: int_ge_induct)
  case base
  then show ?case by (auto simp: allocate_rec split: if_splits)
next
  case (step i)
  show ?case
  proof (cases "i + 1 < have")
    case True
    with step.hyps step.prems
    have "a \<in> set (concat (map (\<lambda>t. map (\<lambda>b. t # b) (allocate (have - t) i)) (rev [1..have - i])))"
      by (simp add: allocate_rec)
    from blocks_member [OF this] obtain t b
      where tb: "a = t # b" "1 \<le> t" "b \<in> set (allocate (have - t) i)" by blast
    from step.IH [OF tb(3)] tb(1,2) step.hyps show ?thesis
      by (simp add: nat_add_distrib)
  next
    case False
    with step.hyps step.prems have "have = i + 1" "a = replicate (nat (i + 1)) 1"
      by (auto simp: allocate_rec split: if_splits)
    with step.hyps show ?thesis by (simp add: sum_list_replicate)
  qed
qed

lemma lex_gt_map_Cons: "sorted_wrt lex_gt (map (\<lambda>b. t # b) bs) = sorted_wrt lex_gt bs"
  by (simp add: sorted_wrt_map)

lemma sorted_blocks:
  assumes "\<And>t. sorted_wrt lex_gt (f t)"
  shows "sorted_wrt lex_gt (concat (map (\<lambda>t. map (\<lambda>b. t # b) (f t)) (rev [1..int n])))"
proof (induction n)
  case 0
  show ?case by simp
next
  case (Suc n)
  have cross: "lex_gt x y"
    if "x \<in> set (map (\<lambda>b. int (Suc n) # b) (f (int (Suc n))))"
      and "y \<in> set (concat (map (\<lambda>t. map (\<lambda>b. t # b) (f t)) (rev [1..int n])))" for x y
  proof -
    from blocks_member [OF that(2)] obtain t b where "y = t # b" "t \<le> int n" by blast
    moreover from that(1) obtain c where "x = int (Suc n) # c" by auto
    ultimately show ?thesis by simp
  qed
  show ?case
    unfolding rev_upto_Suc list.map concat.simps sorted_wrt_append
    using Suc assms cross by (simp only: lex_gt_map_Cons) blast
qed

lemma allocate_sorted: "1 \<le> k \<Longrightarrow> sorted_wrt lex_gt (allocate have k)"
proof (induction k arbitrary: "have" rule: int_ge_induct)
  case base
  show ?case by (simp add: allocate_rec)
next
  case (step i)
  show ?case
  proof (cases "i + 1 < have")
    case True
    have "sorted_wrt lex_gt
       (concat (map (\<lambda>t. map (\<lambda>b. t # b) (allocate (have - t) i)) (rev [1..int (nat (have - i))])))"
      by (rule sorted_blocks) (rule step.IH)
    with True step.hyps show ?thesis by (simp add: allocate_rec)
  next
    case False
    with step.hyps show ?thesis by (simp add: allocate_rec)
  qed
qed

lemma count_blocks:
  assumes "\<And>t. 1 \<le> t \<Longrightarrow> t \<le> n \<Longrightarrow> length (f (int t)) = (H - t - 1) choose m"
    and "n + m + 1 \<le> H"
  shows "length (concat (map (\<lambda>t. map (\<lambda>b. t # b) (f t)) (rev [1..int n])))
           + ((H - n - 1) choose Suc m) = (H - 1) choose Suc m"
  using assms
proof (induction n)
  case 0
  show ?case by simp
next
  case (Suc n)
  have len: "length (f (int (Suc n))) = (H - Suc n - 1) choose m"
    by (rule Suc.prems(1)) simp_all
  have ih: "length (concat (map (\<lambda>t. map (\<lambda>b. t # b) (f t)) (rev [1..int n])))
           + ((H - n - 1) choose Suc m) = (H - 1) choose Suc m"
    using Suc.prems by (intro Suc.IH) simp_all
  from Suc.prems(2) have "H - n - 1 = Suc (H - Suc n - 1)" by simp
  then have pascal: "(H - n - 1) choose Suc m
      = ((H - Suc n - 1) choose m) + ((H - Suc n - 1) choose Suc m)"
    by (simp only: binomial_Suc_Suc)
  show ?case
    unfolding rev_upto_Suc list.map concat.simps length_append length_map
    using len ih pascal by simp
qed

lemma allocate_count:
  "1 \<le> k \<Longrightarrow> 1 \<le> have \<Longrightarrow> length (allocate have k) = nat (have - 1) choose nat (k - 1)"
proof (induction k arbitrary: "have" rule: int_ge_induct)
  case base
  then show ?case by (simp add: allocate_rec)
next
  case (step i)
  show ?case
  proof (cases "i + 1 < have")
    case True
    define n where "n = nat (have - i)"
    define m where "m = nat (i - 1)"
    have n: "int n = have - i" and m: "Suc m = nat i" and nm: "n + m + 1 \<le> nat have"
      using True step.hyps by (simp_all add: n_def m_def)
    have len: "length (allocate (have - int t) i) = (nat have - t - 1) choose m"
      if "1 \<le> t" "t \<le> n" for t
    proof -
      have "1 \<le> have - int t" using that n step.hyps by linarith
      from step.IH [OF this] have "length (allocate (have - int t) i)
          = nat (have - int t - 1) choose nat (i - 1)" .
      moreover have "nat (have - int t - 1) = nat have - t - 1" by linarith
      ultimately show ?thesis by (simp add: m_def)
    qed
    have count: "length (concat (map (\<lambda>t. map (\<lambda>b. t # b) (allocate (have - t) i)) (rev [1..int n])))
           + ((nat have - n - 1) choose Suc m) = (nat have - 1) choose Suc m"
      using len nm by (rule count_blocks)
    have "nat have - n - 1 < Suc m" using n m True step.hyps by linarith
    then have zero: "(nat have - n - 1) choose Suc m = 0" by (rule binomial_eq_0)
    have eq: "nat have - 1 = nat (have - 1)" by linarith
    from count have "length (concat (map (\<lambda>t. map (\<lambda>b. t # b) (allocate (have - t) i)) (rev [1..int n])))
        = (nat have - 1) choose Suc m"
      by (simp only: zero add_0_right)
    then have "length (concat (map (\<lambda>t. map (\<lambda>b. t # b) (allocate (have - t) i)) (rev [1..have - i])))
        = nat (have - 1) choose nat i"
      by (simp only: n m eq)
    with True step.hyps show ?thesis by (simp add: allocate_rec)
  next
    case False
    show ?thesis
    proof (cases "have = i + 1")
      case True
      with step.hyps show ?thesis by (simp add: allocate_rec)
    next
      case neq: False
      with False have lt: "have < i + 1" by simp
      with step.prems step.hyps have "nat (have - 1) < nat i" by linarith
      then have "nat (have - 1) choose nat i = 0" by (rule binomial_eq_0)
      with lt step.hyps show ?thesis by (simp add: allocate_rec)
    qed
  qed
qed

lemma rev_upto_step: "1 \<le> j \<Longrightarrow> rev [1..j] = j # rev [1..j - 1]"
proof -
  assume "1 \<le> j"
  then have "[1..j] = [1..j - 1] @ [j]" by (rule upto_rec2)
  then show ?thesis by simp
qed

lemma allocate_first:
  assumes "1 \<le> k" "k \<le> have"
  shows "\<exists>rest. allocate have k = ((have - k + 1) # replicate (nat (k - 1)) 1) # rest"
proof -
  consider "1 < k" "k < have" | "have = k" | "k = 1" "1 < have" using assms by linarith
  then show ?thesis
  proof cases
    case 1
    define j where "j = have - (k - 1)"
    have j: "1 \<le> j" "have - j = k - 1" "j = have - k + 1" using 1 by (simp_all add: j_def)
    have one: "allocate (k - 1) (k - 1) = [replicate (nat (k - 1)) 1]"
      using 1 by (simp add: allocate_rec)
    have "allocate have k =
        concat (map (\<lambda>t. map (\<lambda>b. t # b) (allocate (have - t) (k - 1))) (rev [1..j]))"
      using 1 by (simp add: allocate_rec j_def)
    also have "\<dots> = map (\<lambda>b. j # b) (allocate (have - j) (k - 1))
        @ concat (map (\<lambda>t. map (\<lambda>b. t # b) (allocate (have - t) (k - 1))) (rev [1..j - 1]))"
      by (simp only: rev_upto_step [OF j(1)] list.map concat.simps)
    also have "\<dots> = (j # replicate (nat (k - 1)) 1)
        # concat (map (\<lambda>t. map (\<lambda>b. t # b) (allocate (have - t) (k - 1))) (rev [1..j - 1]))"
      by (simp only: j(2) one list.map append.simps)
    finally show ?thesis unfolding j(3) by blast
  next
    case 2
    have "nat k = Suc (nat (k - 1))" using assms(1) by linarith
    then have "replicate (nat k) (1::int) = 1 # replicate (nat (k - 1)) 1"
      by (simp only: replicate_Suc)
    with 2 assms show ?thesis by (simp add: allocate_rec)
  next
    case 3
    then show ?thesis by (simp add: allocate_rec)
  qed
qed

lemma choose_4_2: "nat (5 - 1) choose nat (3 - 1) = 6"
  by code_simp

lemma word_combinations_0_1: "word_combinations 0 1 = Some []"
  by (subst word_combinations.simps) simp

text \<open>
  C2, as stated, fails at \<open>have = 0\<close>, \<open>placeholders = 1\<close>: nothing is yielded, and the
  binomial coefficient of \<open>-1\<close> over \<open>0\<close> is \<open>1\<close> (also when \<open>-1\<close> is cut off at \<open>0\<close>).
\<close>

theorem word_combinations_count_at_zero:
  "word_combinations 0 1 = Some []
   \<and> (of_int (0 - 1) :: real) gchoose nat (1 - 1) = 1
   \<and> nat (0 - 1) choose nat (1 - 1) = 1"
  using word_combinations_0_1 by simp

text \<open>
  C2, amended: for \<open>placeholders \<ge> 1\<close> and every \<open>have\<close> the generator finishes; every
  tuple has length \<open>placeholders\<close>, entries at least \<open>1\<close> and sum \<open>have\<close>; nothing is
  yielded for \<open>have < placeholders\<close>; for \<open>have \<ge> 1\<close> the number of tuples is the
  binomial coefficient of \<open>have - 1\<close> over \<open>placeholders - 1\<close>; for
  \<open>have \<ge> placeholders\<close> the first tuple starts with \<open>have - placeholders + 1\<close>; and
  every tuple is lexicographically greater than all that follow.
\<close>

theorem word_combinations_partitions:
  assumes "1 \<le> k"
  shows "\<exists>combos. word_combinations have k = Some combos
      \<and> (\<forall>a\<in>set combos. length a = nat k \<and> (\<forall>x\<in>set a. 1 \<le> x) \<and> sum_list a = have)
      \<and> (have < k \<longrightarrow> combos = [])
      \<and> (1 \<le> have \<longrightarrow> length combos = nat (have - 1) choose nat (k - 1))
      \<and> (k \<le> have \<longrightarrow> combos \<noteq> [] \<and> hd (hd combos) = have - k + 1)
      \<and> sorted_wrt lex_gt combos"
proof -
  have f1: "word_combinations have k = Some (allocate have k)"
    using assms by (rule word_combinations_Some)
  have f2: "\<forall>a\<in>set (allocate have k).
      length a = nat k \<and> (\<forall>x\<in>set a. 1 \<le> x) \<and> sum_list a = have"
    using allocate_tuples [OF assms] by blast
  have f3: "have < k \<longrightarrow> allocate have k = []"
    using assms by (simp add: allocate_rec)
  have f4: "1 \<le> have \<longrightarrow> length (allocate have k) = nat (have - 1) choose nat (k - 1)"
    using assms by (simp add: allocate_count)
  have f5: "k \<le> have \<longrightarrow> allocate have k \<noteq> [] \<and> hd (hd (allocate have k)) = have - k + 1"
  proof
    assume "k \<le> have"
    from allocate_first [OF assms this] obtain rest
      where "allocate have k = ((have - k + 1) # replicate (nat (k - 1)) 1) # rest" ..
    then show "allocate have k \<noteq> [] \<and> hd (hd (allocate have k)) = have - k + 1" by simp
  qed
  have f6: "sorted_wrt lex_gt (allocate have k)"
    using assms by (rule allocate_sorted)
  show ?thesis
    by (rule exI [of _ "allocate have k"]) (intro conjI f1 f2 f3 f4 f5 f6)
qed

theorem word_combinations_partitions_witness:
  "(1::int) \<le> 3
   \<and> (\<exists>combos. word_combinations 5 3 = Some combos \<and> length combos = 6
         \<and> hd (hd combos) = 3 \<and> sorted_wrt lex_gt combos
         \<and> (\<forall>a\<in>set combos. length a = 3 \<and> sum_list a = 5))"
proof -
  have k: "(1::int) \<le> 3" by simp
  from word_combinations_partitions [OF k, of 5] choose_4_2 k show ?thesis
    by auto
qed

lemma Pattern_quit': "Pattern_init latin1 ''quit'' (Some ''default'') = Inr quit_pattern"
  using Pattern_quit by (simp add: quit_pattern_def)

lemma Pattern_help: "Pattern_init latin1 ''help'' (Some ''default'') = Inr help_pattern"
  by code_simp

lemma commands_initial: "commands (initial :: 'v game) = [(quit_pattern, sys_exit, [])]"
  by (simp add: initial_def Pattern_quit')

lemma register_cases:
  "(\<exists>e. Pattern_init latin1 command ctx = Inl e
        \<and> register command func ctx kwargs s = (Inl e, s))
   \<or> (\<exists>p. Pattern_init latin1 command ctx = Inr p
        \<and> set (parameters func) \<noteq> set (argnames p) \<union> set (map fst kwargs)
        \<and> register command func ctx kwargs s = (Inl (InvalidCommand WrongSignature command), s))
   \<or> (\<exists>p. Pattern_init latin1 command ctx = Inr p
        \<and> set (parameters func) = set (argnames p) \<union> set (map fst kwargs)
        \<and> register command func ctx kwargs s
            = (Inr (), s\<lparr>commands := commands s @ [(p, func, kwargs)]\<rparr>))"
  by (cases "Pattern_init latin1 command ctx") (auto simp: register_def Let_def)

lemma Pattern_init_not_signature:
  "Pattern_init latin1 command ctx \<noteq> Inl (InvalidCommand WrongSignature t)"
proof
  assume a: "Pattern_init latin1 command ctx = Inl (InvalidCommand WrongSignature t)"
  then have "\<exists>w\<in>set (str_split latin1 command). malformed_word latin1 w"
    using Pattern_init_Inl_iff [of latin1 command ctx] by blast
  from Pattern_init_bad [OF this, of ctx] a show False by simp
qed

lemma Pattern_take: "Pattern_init latin1 ''take ITEM'' (Some ''default'') = Inr take_pattern"
  by code_simp

text \<open>
  C5: \<^verbatim>\<open>_register\<close> raises \<open>InvalidCommand\<close> for a wrong signature exactly when the
  template compiles and the set of the handler's parameter names differs from the union
  of the pattern's argument names and the keys of the fixed keywords. When it does not
  raise, the new state is the old one with the one entry appended to the registry; when
  it raises, the state is unchanged. A handler with the one parameter \<open>weapon\<close> for a
  pattern with the one argument \<open>item\<close> and no fixed keywords is refused.
\<close>

theorem register_signature:
  "(fst (register command func ctx kwargs s) = Inl (InvalidCommand WrongSignature command)
      \<longleftrightarrow> (\<exists>p. Pattern_init latin1 command ctx = Inr p
             \<and> set (parameters func) \<noteq> set (argnames p) \<union> set (map fst kwargs)))
   \<and> (fst (register command func ctx kwargs s) = Inr ()
      \<longleftrightarrow> (\<exists>p. Pattern_init latin1 command ctx = Inr p
             \<and> set (parameters func) = set (argnames p) \<union> set (map fst kwargs)))
   \<and> (fst (register command func ctx kwargs s) = Inr () \<longrightarrow>
        (\<exists>p. Pattern_init latin1 command ctx = Inr p
           \<and> snd (register command func ctx kwargs s)
               = s\<lparr>commands := commands s @ [(p, func, kwargs)]\<rparr>))
   \<and> (\<forall>e. fst (register command func ctx kwargs s) = Inl e \<longrightarrow>
          snd (register command func ctx kwargs s) = s)
   \<and> (\<forall>p. Pattern_init latin1 command ctx = Inr p \<and> argnames p = [''item'']
            \<and> parameters func = [''weapon''] \<longrightarrow>
          register command func ctx [] s = (Inl (InvalidCommand WrongSignature command), s))"
proof (intro conjI)
  note cases = register_cases [of command ctx func kwargs s]
  note nosig = Pattern_init_not_signature [of command ctx command]
  show "fst (register command func ctx kwargs s) = Inl (InvalidCommand WrongSignature command)
      \<longleftrightarrow> (\<exists>p. Pattern_init latin1 command ctx = Inr p
             \<and> set (parameters func) \<noteq> set (argnames p) \<union> set (map fst kwargs))"
    using cases nosig by auto
  show "fst (register command func ctx kwargs s) = Inr ()
      \<longleftrightarrow> (\<exists>p. Pattern_init latin1 command ctx = Inr p
             \<and> set (parameters func) = set (argnames p) \<union> set (map fst kwargs))"
    using cases by auto
  show "fst (register command func ctx kwargs s) = Inr () \<longrightarrow>
        (\<exists>p. Pattern_init latin1 command ctx = Inr p
           \<and> snd (register command func ctx kwargs s)
               = s\<lparr>commands := commands s @ [(p, func, kwargs)]\<rparr>)"
    using cases by auto
  show "\<forall>e. fst (register command func ctx kwargs s) = Inl e \<longrightarrow>
          snd (register command func ctx kwargs s) = s"
    using cases by auto
  show "\<forall>p. Pattern_init latin1 command ctx = Inr p \<and> argnames p = [''item'']
            \<and> parameters func = [''weapon''] \<longrightarrow>
          register command func ctx [] s = (Inl (InvalidCommand WrongSignature command), s)"
    by (simp add: register_def)
qed

theorem register_signature_witness:
  "Pattern_init latin1 ''take ITEM'' (Some ''default'') = Inr take_pattern
   \<and> register ''take ITEM'' \<lparr>func_name = ''take'', parameters = [''weapon'']\<rparr>
        (Some ''default'') [] (initial :: unit game)
       = (Inl (InvalidCommand WrongSignature ''take ITEM''), initial)
   \<and> fst (register ''take ITEM'' \<lparr>func_name = ''take'', parameters = [''item'']\<rparr>
        (Some ''default'') [] (initial :: unit game)) = Inr ()"
proof -
  let ?weapon = "\<lparr>func_name = ''take'', parameters = [''weapon'']\<rparr>"
  let ?item = "\<lparr>func_name = ''take'', parameters = [''item'']\<rparr>"
  have a: "argnames take_pattern = [''item'']" by (simp add: take_pattern_def)
  have pw: "parameters ?weapon = [''weapon'']" by simp
  have pi: "set (parameters ?item)
      = set (argnames take_pattern) \<union> set (map fst ([] :: (string, unit pyval) dict))"
    by (simp add: take_pattern_def)
  have "register ''take ITEM'' ?weapon (Some ''default'') [] (initial :: unit game)
       = (Inl (InvalidCommand WrongSignature ''take ITEM''), initial)"
    using register_signature [of "''take ITEM''" ?weapon "Some ''default''" "[]" "initial :: unit game"]
      Pattern_take a pw by blast
  moreover have "fst (register ''take ITEM'' ?item (Some ''default'') [] (initial :: unit game)) = Inr ()"
    using register_signature [of "''take ITEM''" ?item "Some ''default''" "[]" "initial :: unit game"]
      Pattern_take pi by blast
  ultimately show ?thesis using Pattern_take by blast
qed

lemma configured_commands:
  "configured s \<Longrightarrow> \<exists>users. commands s = (quit_pattern, sys_exit, []) # users"
proof (induction rule: configured.induct)
  case configured_initial
  show ?case by (simp add: commands_initial)
next
  case (configured_set_context s c)
  then show ?case by (simp add: do_set_context_def)
next
  case (configured_register s command func ctx kwargs)
  then show ?case
    using register_cases [of command ctx func kwargs s] by auto
qed

lemma configured_context:
  "configured s \<Longrightarrow>
   current_context s = Some ''default'' \<or> (\<exists>r. current_context s = Some (''default.'' @ r))"
proof (induction rule: configured.induct)
  case configured_initial
  show ?case by (simp add: initial_def)
next
  case (configured_set_context s c)
  show ?case using set_context_cases [of c] by (simp add: do_set_context_def)
next
  case (configured_register s command func ctx kwargs)
  then show ?case
    using register_cases [of command ctx func kwargs s] by auto
qed

lemma root_pattern_active:
  assumes "pattern_context p = Some ''default''"
    and "cur = ''default'' \<or> (\<exists>r. cur = ''default.'' @ r)"
  shows "is_active (Some cur) p = Inr True"
  using assms is_active_Some [OF assms(1), of cur] by (auto simp: qualify_def)

lemma match_bare:
  assumes "pattern_context p = Some ''default''" "argnames p = []" "pattern p = []"
    and "cur = ''default'' \<or> (\<exists>r. cur = ''default.'' @ r)"
  shows "match (Some cur) p ws = Inr (if ws = prefix p then Some [] else None)"
proof -
  note act = root_pattern_active [OF assms(1,4)]
  have eq: "take (length (prefix p)) ws @ drop (length (prefix p)) ws = ws"
    by (rule append_take_drop_id)
  show ?thesis
  proof (cases "take (length (prefix p)) ws = prefix p")
    case False
    then have "ws \<noteq> prefix p" by auto
    with False show ?thesis by (simp add: match_def act assms(2))
  next
    case True
    show ?thesis
    proof (cases "drop (length (prefix p)) ws = []")
      case nil: True
      with True eq have "ws = prefix p" by simp
      with True nil show ?thesis by (simp add: match_def act assms(2,3))
    next
      case False
      with True eq have "ws \<noteq> prefix p" by auto
      with True False show ?thesis by (simp add: match_def act assms(2,3) Let_def)
    qed
  qed
qed

lemma split_quit: "str_split latin1 (str_lower latin1 ''quit'') = [''quit'']"
  by code_simp

lemma split_help: "str_split latin1 (str_lower latin1 ''help'') = [''help'']"
  by code_simp

lemma split_qmark: "str_split latin1 (str_lower latin1 ''?'') = [''?'']"
  by code_simp

lemma handle_quit:
  assumes "commands s = (quit_pattern, sys_exit, []) # users"
    and "current_context s = Some cur" "cur = ''default'' \<or> (\<exists>r. cur = ''default.'' @ r)"
  shows "handle_command s ''quit'' = Inr [Call sys_exit []]"
proof -
  have "match (Some cur) quit_pattern [''quit''] = Inr (Some [])"
    using match_bare [of quit_pattern cur "[''quit'']"] assms(3) by (simp add: quit_pattern_def)
  then show ?thesis
    using assms(1,2) by (simp add: handle_command_def split_quit dict_update_def)
qed

lemma commands_start_help:
  "commands (start_help True s)
     = (qmark_pattern, help_func, []) # (help_pattern, help_func, []) # commands s"
  by (simp add: start_help_def Pattern_help qmark_pattern_def Let_def)

lemma context_start_help: "current_context (start_help b s) = current_context s"
  by (simp add: start_help_def Pattern_help Let_def)

lemma handle_help:
  assumes "current_context s = Some cur" "cur = ''default'' \<or> (\<exists>r. cur = ''default.'' @ r)"
  shows "handle_command (start_help True s) ''?'' = Inr [Call help_func []]"
    and "handle_command (start_help True s) ''help'' = Inr [Call help_func []]"
proof -
  have q: "match (Some cur) qmark_pattern ws = Inr (if ws = [''?''] then Some [] else None)" for ws
    using match_bare [of qmark_pattern cur ws] assms(2)
    by (simp add: qmark_pattern_def help_pattern_def)
  have h: "match (Some cur) help_pattern ws = Inr (if ws = [''help''] then Some [] else None)" for ws
    using match_bare [of help_pattern cur ws] assms(2)
    by (simp add: help_pattern_def)
  show "handle_command (start_help True s) ''?'' = Inr [Call help_func []]"
    using assms(1) q [of "[''?'']"]
    by (simp add: handle_command_def split_qmark dict_update_def commands_start_help
        context_start_help)
  show "handle_command (start_help True s) ''help'' = Inr [Call help_func []]"
    using assms(1) q [of "[''help'']"] h [of "[''help'']"]
    by (simp add: handle_command_def split_help dict_update_def commands_start_help
        context_start_help)
qed

lemma register_user_quit:
  "register ''quit'' user_quit (Some ''default'') [] (initial :: unit game)
     = (Inr (), \<lparr>current_context = Some ''default'',
                commands = [(quit_pattern, sys_exit, []), (quit_pattern, user_quit, [])]\<rparr>)"
  by (simp add: register_def Pattern_quit' initial_def user_quit_def quit_pattern_def)

text \<open>
  C8, as stated, fails: the registry starts as the list with the quit entry alone and
  \<^verbatim>\<open>_register\<close> appends, so a user's own \<open>quit\<close> command comes after the built-in one,
  and the line \<open>quit\<close> calls \<^verbatim>\<open>sys.exit\<close>, not the user's handler.
\<close>

theorem user_entry_after_quit:
  "register ''quit'' user_quit (Some ''default'') [] (initial :: unit game)
     = (Inr (), \<lparr>current_context = Some ''default'',
                commands = [(quit_pattern, sys_exit, []), (quit_pattern, user_quit, [])]\<rparr>)
   \<and> handle_command
         \<lparr>current_context = Some ''default'',
          commands = [(quit_pattern, sys_exit, []), (quit_pattern, user_quit, [])]
                       :: unit entry list\<rparr> ''quit''
       = Inr [Call sys_exit []]"
  using register_user_quit
    handle_quit [of "\<lparr>current_context = Some ''default'',
          commands = [(quit_pattern, sys_exit, []), (quit_pattern, user_quit, [])]
                       :: unit entry list\<rparr>" "[(quit_pattern, user_quit, [])]" "''default''"]
  by simp

text \<open>
  C8, amended: after import the registry holds the quit entry alone; in every state that
  calls of \<^verbatim>\<open>set_context\<close> and \<^verbatim>\<open>when\<close> lead to, the quit entry is the first entry,
  ahead of every registered one, and the line \<open>quit\<close> calls \<^verbatim>\<open>sys.exit\<close>. With help
  enabled, \<^verbatim>\<open>start\<close> puts the entry for \<open>?\<close> and then the entry for \<open>help\<close> in front
  of all entries, the quit entry included, and the lines \<open>?\<close> and \<open>help\<close> call the
  help function; without help \<^verbatim>\<open>start\<close> leaves the registry as it is.
\<close>

theorem registry_order:
  "commands (initial :: 'v game) = [(quit_pattern, sys_exit, [])]
   \<and> (configured s \<longrightarrow>
        (\<exists>users. commands s = (quit_pattern, sys_exit, []) # users)
        \<and> handle_command s ''quit'' = Inr [Call sys_exit []]
        \<and> handle_command (start_help True s) ''?'' = Inr [Call help_func []]
        \<and> handle_command (start_help True s) ''help'' = Inr [Call help_func []])
   \<and> commands (start_help True s)
       = (qmark_pattern, help_func, []) # (help_pattern, help_func, []) # commands s
   \<and> start_help False s = s"
proof (intro conjI impI)
  show "commands (initial :: 'v game) = [(quit_pattern, sys_exit, [])]"
    by (rule commands_initial)
  show "commands (start_help True s)
       = (qmark_pattern, help_func, []) # (help_pattern, help_func, []) # commands s"
    by (rule commands_start_help)
  show "start_help False s = s" by (simp add: start_help_def)
next
  assume c: "configured s"
  from configured_commands [OF c]
  obtain users where u: "commands s = (quit_pattern, sys_exit, []) # users" ..
  from configured_context [OF c]
  obtain cur where cur: "current_context s = Some cur"
    "cur = ''default'' \<or> (\<exists>r. cur = ''default.'' @ r)" by auto
  show "\<exists>users. commands s = (quit_pattern, sys_exit, []) # users" using u ..
  show "handle_command s ''quit'' = Inr [Call sys_exit []]"
    using u cur by (rule handle_quit)
  show "handle_command (start_help True s) ''?'' = Inr [Call help_func []]"
    using cur by (rule handle_help(1))
  show "handle_command (start_help True s) ''help'' = Inr [Call help_func []]"
    using cur by (rule handle_help(2))
qed

theorem registry_order_witness:
  "configured (snd (register ''quit'' user_quit (Some ''default'') [] (initial :: unit game)))
   \<and> handle_command (snd (register ''quit'' user_quit (Some ''default'') [] (initial :: unit game)))
        ''quit'' = Inr [Call sys_exit []]
   \<and> hd (commands (start_help True
        (snd (register ''quit'' user_quit (Some ''default'') [] (initial :: unit game)))))
       = (qmark_pattern, help_func, [])"
proof -
  let ?s = "snd (register ''quit'' user_quit (Some ''default'') [] (initial :: unit game))"
  have c: "configured ?s"
    by (intro configured_register configured_initial)
  from registry_order [of ?s] c
  have a: "handle_command ?s ''quit'' = Inr [Call sys_exit []]" by blast
  from registry_order [of ?s]
  have b: "commands (start_help True ?s)
       = (qmark_pattern, help_func, []) # (help_pattern, help_func, []) # commands ?s"
    by blast
  from b have "hd (commands (start_help True ?s)) = (qmark_pattern, help_func, [])"
    by (simp only: list.sel)
  with c a show ?thesis by blast
qed

lemma length_tokens_split:
  "length ts = length (token_names ts) + length (filter is_literal ts)"
  by (induction ts rule: token_names.induct) auto

lemma token_names_nonempty: "ts \<noteq> [] \<Longrightarrow> \<not> is_literal (hd ts) \<Longrightarrow> token_names ts \<noteq> []"
  by (cases ts rule: token_names.cases) auto

lemma compiled_counts:
  assumes "Pattern_init latin1 t c = Inr p"
  shows "int (length (argnames p)) = placeholders p"
    and "placeholders p = int (length (token_names (pattern p)))"
    and "fixed p = int (length (filter is_literal (pattern p)))"
    and "pattern p \<noteq> [] \<Longrightarrow> 1 \<le> placeholders p"
proof -
  note rec = Pattern_init_Inr(2) [OF assms]
  show "int (length (argnames p)) = placeholders p" by (simp add: rec)
  show ph: "placeholders p = int (length (token_names (pattern p)))"
    by (simp add: rec token_names_dropWhile)
  have "fixed p = int (length (pattern p)) - placeholders p" by (simp add: rec)
  then show "fixed p = int (length (filter is_literal (pattern p)))"
    using length_tokens_split [of "pattern p"] by (simp add: ph)
  show "1 \<le> placeholders p" if "pattern p \<noteq> []"
  proof -
    from that have ne: "dropWhile is_literal (template_tokens latin1 t) \<noteq> []" by (simp add: rec)
    from hd_dropWhile [OF ne] have "\<not> is_literal (hd (dropWhile is_literal (template_tokens latin1 t)))" .
    from token_names_nonempty [OF ne this] have "token_names (pattern p) \<noteq> []" by (simp add: rec)
    then have "0 < length (token_names (pattern p))" by simp
    then have "1 \<le> int (length (token_names (pattern p)))" by linarith
    then show ?thesis by (simp only: ph)
  qed
qed

lemma joined_update:
  "map (\<lambda>(k, v). (k, f v)) (AList.update k v al) = AList.update k (f v) (map (\<lambda>(k, v). (k, f v)) al)"
  by (induction al) auto

lemma map_of_joined_update:
  "map_of (map (\<lambda>(k, v). (k, f v)) (AList.update k v al))
     = (map_of (map (\<lambda>(k, v). (k, f v)) al))(k \<mapsto> f v)"
  by (simp only: joined_update update_conv')

lemma match_combo_consume:
  "length a = length (token_names ts) \<Longrightarrow> \<forall>x\<in>set a. 0 \<le> x \<Longrightarrow>
   (case match_combo ts a inp acc of
      Returned acc' \<Rightarrow>
        (\<exists>left. consume ts a inp (map_of (map (\<lambda>(k, v). (k, str_join v)) acc))
                   = Some (map_of (map (\<lambda>(k, v). (k, str_join v)) acc'), left)
               \<and> int (length inp)
                   = sum_list a + int (length (filter is_literal ts)) + int (length left))
    | Broke \<Rightarrow> consume ts a inp (map_of (map (\<lambda>(k, v). (k, str_join v)) acc)) = None
    | StopIteration \<Rightarrow> consume ts a inp (map_of (map (\<lambda>(k, v). (k, str_join v)) acc)) = None)"
proof (induction ts a inp acc rule: match_combo.induct)
  case (1 takes inp matches)
  then show ?case by simp
next
  case (2 name cwords takes inp matches)
  from "2.prems"(1) obtain n takes' where t: "takes = n # takes'" by (cases takes) auto
  show ?case
  proof (cases "nat n \<le> length inp")
    case True
    from "2.prems" t have pre: "length takes' = length (token_names cwords)" "\<forall>x\<in>set takes'. 0 \<le> x"
      and n: "0 \<le> n" by auto
    have len: "int (length inp) = n + int (length (drop (nat n) inp))"
      using True n by simp
    let ?J = "map (\<lambda>(k, v). (k, str_join v))"
    let ?inp' = "drop (nat n) inp"
    let ?acc = "AList.update name (take (nat n) inp) matches"
    let ?m = "(map_of (?J matches))(name \<mapsto> str_join (take (nat n) inp))"
    have m: "map_of (?J ?acc) = ?m" by (rule map_of_joined_update)
    have eq_m: "match_combo (Placeholder name # cwords) takes inp matches
        = match_combo cwords takes' ?inp' ?acc"
      using t True by simp
    have eq_c: "consume (Placeholder name # cwords) takes inp (map_of (?J matches))
        = consume cwords takes' ?inp' ?m"
      using t True by simp
    have sums: "sum_list takes + int (length (filter is_literal (Placeholder name # cwords)))
        = n + (sum_list takes' + int (length (filter is_literal cwords)))"
      using t by simp
    note ih = "2.IH" [OF t True pre, unfolded m]
    show ?thesis
    proof (cases "match_combo cwords takes' ?inp' ?acc")
      case (Returned acc')
      with ih obtain left where l: "consume cwords takes' ?inp' ?m = Some (map_of (?J acc'), left)"
        "int (length ?inp') = sum_list takes' + int (length (filter is_literal cwords)) + int (length left)"
        by auto
      from l(2) len sums
      have "int (length inp) = sum_list takes
          + int (length (filter is_literal (Placeholder name # cwords))) + int (length left)"
        by linarith
      with l(1) show ?thesis unfolding eq_m eq_c Returned by simp
    next
      case Broke
      with ih show ?thesis unfolding eq_m eq_c by simp
    next
      case StopIteration
      with ih show ?thesis unfolding eq_m eq_c by simp
    qed
  next
    case False
    then show ?thesis using t by simp
  qed
next
  case (3 cword cwords takes inp matches)
  show ?case
  proof (cases inp)
    case Nil
    then show ?thesis by simp
  next
    case (Cons word inp')
    show ?thesis
    proof (cases "cword = word")
      case True
      from "3.IH" [OF Cons] True "3.prems" show ?thesis
        using Cons by (auto split: outcome.splits)
    next
      case False
      then show ?thesis using Cons by auto
    qed
  qed
qed

lemma match_combos_first_fit:
  assumes "\<forall>a\<in>set allocs. length a = length (token_names ts) \<and> (\<forall>x\<in>set a. 0 \<le> x)
             \<and> sum_list a + int (length (filter is_literal ts)) = int (length inp)"
  shows "map_option map_of (match_combos ts allocs inp) = first_fit ts inp allocs"
  using assms
proof (induction allocs)
  case Nil
  show ?case by simp
next
  case (Cons a allocs)
  then have a: "length a = length (token_names ts)" "\<forall>x\<in>set a. 0 \<le> x"
    and s: "sum_list a + int (length (filter is_literal ts)) = int (length inp)"
    and ih: "map_option map_of (match_combos ts allocs inp) = first_fit ts inp allocs"
    by auto
  from match_combo_consume [OF a, of inp "[]"] s ih show ?case
    by (cases "match_combo ts a inp []") auto
qed

lemma is_active_Inr: "\<exists>b. is_active (Some cur) p = Inr b"
proof (cases "pattern_context p")
  case None
  then have "is_active (Some cur) p = Inr False" by (simp add: is_active_def)
  then show ?thesis by blast
next
  case (Some c)
  from is_active_Some [OF this, of cur] show ?thesis by blast
qed

lemma match_refines:
  assumes "Pattern_init latin1 t c = Inr p"
  shows "\<exists>r. match (Some cur) p ws = Inr r \<and> map_option map_of r = match_spec cur p ws"
proof -
  obtain b where b: "is_active (Some cur) p = Inr b" using is_active_Inr by blast
  note cnt = compiled_counts [OF assms]
  have lt: "(length ws < length (argnames p)) \<longleftrightarrow> (int (length ws) < placeholders p)"
    using cnt(1) by linarith
  define rest where "rest = drop (length (prefix p)) ws"
  show ?thesis
  proof (cases "b \<and> \<not> length ws < length (argnames p) \<and> take (length (prefix p)) ws = prefix p")
    case False
    then have "match (Some cur) p ws = Inr None"
      by (auto simp: match_def b)
    moreover from False have "match_spec cur p ws = None"
      by (auto simp: match_spec_def b lt [symmetric])
    ultimately show ?thesis by simp
  next
    case True
    then have pre: "is_active (Some cur) p = Inr True" "\<not> length ws < length (argnames p)"
      "\<not> int (length ws) < placeholders p" "take (length (prefix p)) ws = prefix p"
      using b lt by auto
    have m: "match (Some cur) p ws =
       (if rest = [] \<and> pattern p = [] then Inr (Some [])
        else if (rest \<noteq> []) \<noteq> (pattern p \<noteq> []) then Inr None
        else case word_combinations (int (length rest) - fixed p) (placeholders p) of
               None \<Rightarrow> Inl RecursionError
             | Some combos \<Rightarrow> Inr (match_combos (pattern p) combos rest))"
      unfolding match_def rest_def Let_def using pre(1,2,4) by simp
    have sp: "match_spec cur p ws =
       (if pattern p = [] \<and> rest = [] then Some Map.empty
        else if (pattern p = []) \<noteq> (rest = []) then None
        else first_fit (pattern p) rest
               (allocate (int (length rest) - fixed p) (placeholders p)))"
      unfolding match_spec_def rest_def Let_def using pre(1,3,4) by simp
    show ?thesis
    proof (cases "pattern p = [] \<or> rest = []")
      case True
      then show ?thesis unfolding m sp by auto
    next
      case False
      then have ne: "pattern p \<noteq> []" "rest \<noteq> []" by auto
      let ?h = "int (length rest) - fixed p"
      let ?k = "placeholders p"
      have k: "1 \<le> ?k" using cnt(4) [OF ne(1)] .
      have wc: "word_combinations ?h ?k = Some (allocate ?h ?k)"
        using k by (rule word_combinations_Some)
      have "\<forall>a\<in>set (allocate ?h ?k).
          length a = length (token_names (pattern p)) \<and> (\<forall>x\<in>set a. 0 \<le> x)
          \<and> sum_list a + int (length (filter is_literal (pattern p))) = int (length rest)"
      proof
        fix a assume "a \<in> set (allocate ?h ?k)"
        from allocate_tuples [OF k this]
        have "length a = nat ?k" "\<forall>x\<in>set a. 1 \<le> x" "sum_list a = ?h" by auto
        then show "length a = length (token_names (pattern p)) \<and> (\<forall>x\<in>set a. 0 \<le> x)
          \<and> sum_list a + int (length (filter is_literal (pattern p))) = int (length rest)"
          using cnt(2,3) by fastforce
      qed
      from match_combos_first_fit [OF this]
      have "map_option map_of (match_combos (pattern p) (allocate ?h ?k) rest)
         = first_fit (pattern p) rest (allocate ?h ?k)" .
      then show ?thesis unfolding m sp using ne wc by simp
    qed
  qed
qed

lemma match_put:
  "match (Some ''default'') put_pattern
      [''put'', ''a'', ''rusty'', ''key'', ''in'', ''the'', ''old'', ''chest'']
     = Inr (Some [(''item'', ''a rusty key''), (''container'', ''the old chest'')])"
  by code_simp

lemma match_spec_take:
  "map_option (\<lambda>m. (m ''item'', m ''other'')) (match_spec ''default'' take_pattern [''take'', ''red'', ''ball''])
     = Some (Some ''red ball'', None)"
  by code_simp

text \<open>
  C1: with the current context set, \<^verbatim>\<open>Pattern.match\<close> on a compiled pattern returns, and
  returns what the specification's matching gives: no match for an inactive pattern, for
  fewer words than placeholders, for leading words other than the prefix, and when
  exactly one of the remaining pattern and the remaining input is empty; the empty
  mapping when both are empty; otherwise the mapping of the first allocation, in the
  allocator's order, that consumes every token and the whole input, and no match when
  there is none. The pattern of \<open>put ITEM in CONTAINER\<close> on
  \<open>put a rusty key in the old chest\<close> gives \<open>item\<close> as \<open>a rusty key\<close> and \<open>container\<close>
  as \<open>the old chest\<close>.
\<close>

theorem match_first_allocation:
  "(Pattern_init latin1 t c = Inr p \<longrightarrow>
      (\<exists>r. match (Some cur) p ws = Inr r \<and> map_option map_of r = match_spec cur p ws))
   \<and> Pattern_init latin1 ''put ITEM in CONTAINER'' (Some ''default'') = Inr put_pattern
   \<and> match (Some ''default'') put_pattern
        [''put'', ''a'', ''rusty'', ''key'', ''in'', ''the'', ''old'', ''chest'']
       = Inr (Some [(''item'', ''a rusty key''), (''container'', ''the old chest'')])"
  using match_refines [of t c p cur ws] Pattern_put match_put by blast

theorem match_first_allocation_witness:
  "Pattern_init latin1 ''take ITEM'' (Some ''default'') = Inr take_pattern
   \<and> (\<exists>r. match (Some ''default'') take_pattern [''take'', ''red'', ''ball''] = Inr (Some r)
          \<and> map_of r ''item'' = Some ''red ball'' \<and> map_of r ''other'' = None)"
proof -
  from match_first_allocation
    [of "''take ITEM''" "Some ''default''" take_pattern "''default''" "[''take'', ''red'', ''ball'']"]
    Pattern_take
  obtain r where r: "match (Some ''default'') take_pattern [''take'', ''red'', ''ball''] = Inr r"
    "map_option map_of r = match_spec ''default'' take_pattern [''take'', ''red'', ''ball'']"
    by blast
  from r(2) match_spec_take obtain d where "r = Some d" "map_of d ''item'' = Some ''red ball''"
    "map_of d ''other'' = None"
    by (cases r) auto
  with r(1) Pattern_take show ?thesis by blast
qed




lemma handle_loop_Call:
  "handle_loop cur ws es cmd = Inr [Call f args] \<Longrightarrow>
   \<exists>pre p kw post m.
      es = pre @ (p, f, kw) # post
    \<and> (\<forall>e\<in>set pre. match cur (fst e) ws = Inr None)
    \<and> match cur p ws = Inr (Some m)
    \<and> args = dict_update kw (map (\<lambda>(k, v). (k, Str v)) m)"
proof (induction es)
  case Nil
  then show ?case by simp
next
  case (Cons e es)
  obtain p g kw where e: "e = (p, g, kw)" by (cases e)
  show ?case
  proof (cases "match cur p ws")
    case (Inl err)
    with Cons.prems e show ?thesis by simp
  next
    case (Inr r)
    show ?thesis
    proof (cases r)
      case None
      with Cons.prems e Inr have "handle_loop cur ws es cmd = Inr [Call f args]" by simp
      from Cons.IH [OF this] obtain pre q kw' post m where
        es: "es = pre @ (q, f, kw') # post"
        and pre: "\<forall>e\<in>set pre. match cur (fst e) ws = Inr None"
        and m: "match cur q ws = Inr (Some m)"
        and a: "args = dict_update kw' (map (\<lambda>(k, v). (k, Str v)) m)"
        by blast
      have "e # es = (e # pre) @ (q, f, kw') # post" using es by simp
      moreover have "\<forall>x\<in>set (e # pre). match cur (fst x) ws = Inr None"
        using pre Inr None e by simp
      ultimately show ?thesis using m a by blast
    next
      case (Some m)
      with Cons.prems e Inr have "g = f" "args = dict_update kw (map (\<lambda>(k, v). (k, Str v)) m)"
        by simp_all
      moreover have "e # es = [] @ (p, g, kw) # es" using e by simp
      ultimately show ?thesis using Inr Some by fastforce
    qed
  qed
qed

lemma map_of_dict_update:
  "distinct (map fst other) \<Longrightarrow> map_of (dict_update d other) = map_of d ++ map_of other"
proof (induction other arbitrary: d)
  case Nil
  show ?case by (simp add: dict_update_def)
next
  case (Cons kv other)
  obtain k v where kv: "kv = (k, v)" by (cases kv)
  from Cons.prems kv have d: "distinct (map fst other)" and k: "map_of other k = None"
    by (auto simp: map_of_eq_None_iff)
  have "dict_update d (kv # other) = dict_update (AList.update k v d) other"
    by (simp add: dict_update_def kv)
  then have "map_of (dict_update d (kv # other)) = map_of (AList.update k v d) ++ map_of other"
    using Cons.IH [OF d, of "AList.update k v d"] by simp
  then have "map_of (dict_update d (kv # other)) = (map_of d)(k \<mapsto> v) ++ map_of other"
    by (simp only: update_conv')
  also have "\<dots> = map_of d ++ map_of (kv # other)"
    using k by (auto simp: kv map_add_def fun_eq_iff split: option.splits)
  finally show ?case .
qed

lemma match_combo_distinct:
  "distinct (map fst acc) \<Longrightarrow> match_combo ts a inp acc = Returned acc' \<Longrightarrow>
   distinct (map fst acc')"
proof (induction ts a inp acc rule: match_combo.induct)
  case (1 takes inp matches)
  then show ?case by simp
next
  case (2 name cwords takes inp matches)
  then show ?case
    by (auto simp: distinct_update split: list.splits if_splits)
next
  case (3 cword cwords takes inp matches)
  then show ?case by (auto split: list.splits if_splits)
qed

lemma match_combos_distinct:
  "match_combos ts allocs inp = Some m \<Longrightarrow> distinct (map fst m)"
proof (induction allocs)
  case Nil
  then show ?case by simp
next
  case (Cons a allocs)
  show ?case
  proof (cases "match_combo ts a inp []")
    case (Returned acc')
    from match_combo_distinct [OF _ this] have "distinct (map fst acc')" by simp
    moreover have "map fst (map (\<lambda>(k, v). (k, str_join v)) acc') = map fst acc'"
      by (induction acc') auto
    moreover from Cons.prems Returned have "m = map (\<lambda>(k, v). (k, str_join v)) acc'"
      by simp
    ultimately show ?thesis by (simp only:)
  next
    case Broke
    with Cons show ?thesis by simp
  next
    case StopIteration
    with Cons show ?thesis by simp
  qed
qed

lemma match_distinct:
  assumes "match cur p ws = Inr (Some m)"
  shows "distinct (map fst m)"
proof -
  let ?rest = "drop (length (prefix p)) ws"
  from assms have "m = [] \<or> (\<exists>combos. match_combos (pattern p) combos ?rest = Some m)"
    by (auto simp: match_def Let_def split: sum.splits option.splits if_splits)
  then show ?thesis using match_combos_distinct by auto
qed


lemma register_take_fixed:
  "register ''take ITEM'' take_handler (Some ''default'') [(''item'', Obj ())] (initial :: unit game)
     = (Inr (), take_game_fixed)"
  by (simp add: register_def Pattern_take initial_def Pattern_quit' take_handler_def
      take_pattern_def take_game_fixed_def)




lemma handle_take_fixed:
  "handle_command take_game_fixed ''take ball''
     = Inr [Call take_handler [(''item'', Str ''ball'')]]"
  by code_simp



text \<open>
  C9: when \<^verbatim>\<open>_handle_command\<close> calls a handler, the call comes from an entry whose
  pattern matched, and every key that the match captured has its captured value in the
  arguments of the call, whatever the entry's fixed keywords give for that key; the
  other keys have the fixed keywords' values. Registering \<open>take ITEM\<close> with the fixed
  keyword \<open>item\<close> is accepted, and the line \<open>take ball\<close> then calls the handler with
  \<open>item\<close> as \<open>ball\<close>.
\<close>

theorem captured_overrides_fixed:
  "(handle_command s cmd = Inr [Call f args] \<longrightarrow>
      (\<exists>pre p kw post m.
          commands s = pre @ (p, f, kw) # post
        \<and> match (current_context s) p (str_split latin1 (str_lower latin1 cmd)) = Inr (Some m)
        \<and> (\<forall>k v. map_of m k = Some v \<longrightarrow> map_of args k = Some (Str v))
        \<and> (\<forall>k. map_of m k = None \<longrightarrow> map_of args k = map_of kw k)))
   \<and> register ''take ITEM'' take_handler (Some ''default'') [(''item'', Obj ())]
        (initial :: unit game) = (Inr (), take_game_fixed)
   \<and> handle_command take_game_fixed ''take ball''
       = Inr [Call take_handler [(''item'', Str ''ball'')]]"
proof (intro conjI impI)
  assume "handle_command s cmd = Inr [Call f args]"
  then have "handle_loop (current_context s) (str_split latin1 (str_lower latin1 cmd)) (commands s) cmd
      = Inr [Call f args]"
    by (simp add: handle_command_def)
  from handle_loop_Call [OF this] obtain pre p kw post m where
    es: "commands s = pre @ (p, f, kw) # post"
    and m: "match (current_context s) p (str_split latin1 (str_lower latin1 cmd)) = Inr (Some m)"
    and a: "args = dict_update kw (map (\<lambda>(k, v). (k, Str v)) m)"
    by blast
  let ?strs = "map (\<lambda>(k, v). (k, Str v)) m"
  have fst: "map fst ?strs = map fst m" by (induction m) auto
  have "distinct (map fst ?strs)" using match_distinct [OF m] by (simp only: fst)
  from map_of_dict_update [OF this, of kw]
  have args: "map_of args = map_of kw ++ map_of ?strs" by (simp only: a)
  have look: "map_of ?strs k = map_option Str (map_of m k)" for k
    by (induction m) auto
  have "\<forall>k v. map_of m k = Some v \<longrightarrow> map_of args k = Some (Str v)"
    by (simp add: args map_add_def look)
  moreover have "\<forall>k. map_of m k = None \<longrightarrow> map_of args k = map_of kw k"
    by (simp add: args map_add_def look)
  ultimately show "\<exists>pre p kw post m.
          commands s = pre @ (p, f, kw) # post
        \<and> match (current_context s) p (str_split latin1 (str_lower latin1 cmd)) = Inr (Some m)
        \<and> (\<forall>k v. map_of m k = Some v \<longrightarrow> map_of args k = Some (Str v))
        \<and> (\<forall>k. map_of m k = None \<longrightarrow> map_of args k = map_of kw k)"
    using es m by blast
next
  show "register ''take ITEM'' take_handler (Some ''default'') [(''item'', Obj ())]
        (initial :: unit game) = (Inr (), take_game_fixed)"
    by (rule register_take_fixed)
  show "handle_command take_game_fixed ''take ball''
       = Inr [Call take_handler [(''item'', Str ''ball'')]]"
    by (rule handle_take_fixed)
qed

theorem captured_overrides_fixed_witness:
  "handle_command take_game_fixed ''take ball''
     = Inr [Call take_handler [(''item'', Str ''ball'')]]
   \<and> (\<exists>pre p kw post m.
          commands take_game_fixed = pre @ (p, take_handler, kw) # post
        \<and> match (current_context take_game_fixed) p (str_split latin1 (str_lower latin1 ''take ball''))
            = Inr (Some m)
        \<and> (\<forall>k v. map_of m k = Some v \<longrightarrow>
              map_of [(''item'', Str ''ball'')] k = Some (Str v :: unit pyval)))"
  using captured_overrides_fixed
    [of take_game_fixed "''take ball''" take_handler "[(''item'', Str ''ball'')]"]
    handle_take_fixed
  by blast

end
